theory Spec2Isabelle
  imports Main "HOL-Library.AList" "HOL-Library.Sublist"
begin

section \<open>Python values shared by the three components\<close>

text \<open>
  The exceptions of the Python runtime that the modelled code can meet. All of them are
  subclasses of \<^verbatim>\<open>Exception\<close>, so an \<^verbatim>\<open>except Exception\<close> clause catches each of them.
  \<^verbatim>\<open>BackendError\<close> stands for whatever an external client (IronCache, Supabase, httpx)
  raises.
\<close>

datatype py_error = KeyError | IndexError | ValueError | OverflowError | BackendError string

text \<open>
  A Python \<^verbatim>\<open>dict\<close> whose iteration order matters is an association list in insertion
  order: \<^const>\<open>AList.update\<close> overwrites the value of a key in place and appends a new
  key at the end, as \<^verbatim>\<open>d[k] = v\<close> does. The comprehension
  \<^verbatim>\<open>{instance: v for instance in instances}\<close> assigns the keys one after the other.
\<close>

definition dict_comp :: "'k list \<Rightarrow> 'v \<Rightarrow> ('k \<times> 'v) list" where
  "dict_comp ks v = foldl (\<lambda>d k. AList.update k v d) [] ks"

text \<open>\<^verbatim>\<open>xs[i]\<close>: a negative index counts from the end, an index out of range raises.\<close>

definition py_index :: "'a list \<Rightarrow> int \<Rightarrow> py_error + 'a" where
  "py_index xs i =
     (let n = int (length xs); j = (if i < 0 then i + n else i)
      in if j < 0 \<or> n \<le> j then Inl IndexError else Inr (xs ! nat j))"

text \<open>\<^verbatim>\<open>d[k] += 1\<close>: reads \<^verbatim>\<open>d[k]\<close> (KeyError when absent), then stores the sum.\<close>

definition dict_incr :: "('k \<times> int) list \<Rightarrow> 'k \<Rightarrow> py_error + ('k \<times> int) list" where
  "dict_incr d k =
     (case map_of d k of
        None \<Rightarrow> Inl KeyError
      | Some c \<Rightarrow> Inr (AList.update k (c + 1) d))"

text \<open>
  \<^verbatim>\<open>min(d, key=d.get)\<close>: one pass over the keys in iteration order, keeping the current
  best and replacing it only by a strictly smaller one; \<^verbatim>\<open>min\<close> of an empty dict raises
  ValueError.
\<close>

fun min_scan :: "('k \<times> int) \<Rightarrow> ('k \<times> int) list \<Rightarrow> ('k \<times> int)" where
  "min_scan best [] = best"
| "min_scan best (p # ps) = min_scan (if snd p < snd best then p else best) ps"

definition py_min_key :: "('k \<times> int) list \<Rightarrow> py_error + 'k" where
  "py_min_key d = (case d of [] \<Rightarrow> Inl ValueError | p # ps \<Rightarrow> Inr (fst (min_scan p ps)))"

section \<open>Load balancer (\<^verbatim>\<open>LoadBalancer\<close> in api/endpoints/performance.py)\<close>

record service =
  instances :: "string list"
  algorithm :: string
  current_index :: int
  health_status :: "(string \<times> bool) list"

text \<open>
  The balancer keeps the registrations and, apart from them, the connection tables.
  (\<^verbatim>\<open>__init__\<close> also creates \<^verbatim>\<open>self.current_index\<close>, which no method reads or
  writes; the cursor in use is the \<^verbatim>\<open>"current_index"\<close> entry of each registration.)
\<close>

record load_balancer =
  services :: "string \<rightharpoonup> service"
  active_connections :: "string \<rightharpoonup> (string \<times> int) list"

definition lb_init :: load_balancer where
  "lb_init = \<lparr>services = Map.empty, active_connections = Map.empty\<rparr>"

definition register_service :: "load_balancer \<Rightarrow> string \<Rightarrow> string list \<Rightarrow> string \<Rightarrow> load_balancer" where
  "register_service lb service_name insts alg =
     lb\<lparr>services := (services lb)(service_name \<mapsto>
            \<lparr>instances = insts, algorithm = alg, current_index = 0,
             health_status = dict_comp insts True\<rparr>),
        active_connections := (active_connections lb)(service_name \<mapsto> dict_comp insts 0)\<rparr>"

text \<open>
  \<^verbatim>\<open>self.active_connections[service_name][instance] += 1\<close>: both subscripts raise
  KeyError on a missing key.
\<close>

definition incr_connection :: "load_balancer \<Rightarrow> string \<Rightarrow> string \<Rightarrow> py_error + load_balancer" where
  "incr_connection lb service_name inst =
     (case active_connections lb service_name of
        None \<Rightarrow> Inl KeyError
      | Some conns \<Rightarrow>
          (case dict_incr conns inst of
             Inl e \<Rightarrow> Inl e
           | Inr conns' \<Rightarrow>
               Inr (lb\<lparr>active_connections := (active_connections lb)(service_name \<mapsto> conns')\<rparr>)))"

text \<open>
  The result is the returned instance (\<open>None\<close> for Python's \<^verbatim>\<open>None\<close>) with the updated
  balancer, or the exception that leaves the method.
\<close>

definition get_next_instance :: "load_balancer \<Rightarrow> string \<Rightarrow> py_error + (string option \<times> load_balancer)" where
  "get_next_instance lb service_name =
     (case services lb service_name of
        None \<Rightarrow> Inr (None, lb)
      | Some svc \<Rightarrow>
          if instances svc = [] then Inr (None, lb)
          else if algorithm svc = ''round_robin'' then
            (case py_index (instances svc) (current_index svc) of
               Inl e \<Rightarrow> Inl e
             | Inr inst \<Rightarrow>
                 (let svc' = svc\<lparr>current_index :=
                                 (current_index svc + 1) mod int (length (instances svc))\<rparr>;
                      lb' = lb\<lparr>services := (services lb)(service_name \<mapsto> svc')\<rparr>
                  in case incr_connection lb' service_name inst of
                       Inl e \<Rightarrow> Inl e
                     | Inr lb'' \<Rightarrow> Inr (Some inst, lb'')))
          else if algorithm svc = ''least_connections'' then
            (case active_connections lb service_name of
               None \<Rightarrow> Inl KeyError
             | Some conns \<Rightarrow>
                 (case py_min_key conns of
                    Inl e \<Rightarrow> Inl e
                  | Inr min_instance \<Rightarrow>
                      (case incr_connection lb service_name min_instance of
                         Inl e \<Rightarrow> Inl e
                       | Inr lb' \<Rightarrow> Inr (Some min_instance, lb'))))
          else
            (case py_index (instances svc) 0 of
               Inl e \<Rightarrow> Inl e
             | Inr inst \<Rightarrow>
                 (case incr_connection lb service_name inst of
                    Inl e \<Rightarrow> Inl e
                  | Inr lb' \<Rightarrow> Inr (Some inst, lb'))))"

definition release_instance :: "load_balancer \<Rightarrow> string \<Rightarrow> string \<Rightarrow> load_balancer" where
  "release_instance lb service_name inst =
     (case active_connections lb service_name of
        None \<Rightarrow> lb
      | Some conns \<Rightarrow>
          (case map_of conns inst of
             None \<Rightarrow> lb
           | Some c \<Rightarrow>
               lb\<lparr>active_connections :=
                    (active_connections lb)(service_name \<mapsto> AList.update inst (max 0 (c - 1)) conns)\<rparr>))"

text \<open>
  What one liveness probe (\<^verbatim>\<open>httpx.AsyncClient().get(instance)\<close>) does: it answers with
  an HTTP status code or it raises. The probe of the environment is a parameter of
  \<open>health_check\<close>.
\<close>

datatype probe_outcome = Status int | ProbeRaises py_error

definition probe_healthy :: "probe_outcome \<Rightarrow> bool" where
  "probe_healthy r = (case r of Status code \<Rightarrow> code = 200 | ProbeRaises e \<Rightarrow> False)"

fun health_loop :: "(string \<Rightarrow> probe_outcome) \<Rightarrow> (string \<times> bool) list \<Rightarrow> string list \<Rightarrow> (string \<times> bool) list" where
  "health_loop probe hs [] = hs"
| "health_loop probe hs (inst # rest) =
     health_loop probe (AList.update inst (probe_healthy (probe inst)) hs) rest"

definition health_check :: "(string \<Rightarrow> probe_outcome) \<Rightarrow> load_balancer \<Rightarrow> string \<Rightarrow> load_balancer" where
  "health_check probe lb service_name =
     (case services lb service_name of
        None \<Rightarrow> lb
      | Some svc \<Rightarrow>
          lb\<lparr>services := (services lb)(service_name \<mapsto>
                 svc\<lparr>health_status := health_loop probe (health_status svc) (instances svc)\<rparr>)\<rparr>)"

text \<open>Sequences of balancer operations; a run stops at the first exception.\<close>

datatype lb_op =
    Register string "string list" string
  | GetNext string
  | Release string string

fun lb_step :: "load_balancer \<Rightarrow> lb_op \<Rightarrow> py_error + load_balancer" where
  "lb_step lb (Register n insts alg) = Inr (register_service lb n insts alg)"
| "lb_step lb (GetNext n) =
     (case get_next_instance lb n of Inl e \<Rightarrow> Inl e | Inr (r, lb') \<Rightarrow> Inr lb')"
| "lb_step lb (Release n inst) = Inr (release_instance lb n inst)"

fun lb_run :: "load_balancer \<Rightarrow> lb_op list \<Rightarrow> py_error + load_balancer" where
  "lb_run lb [] = Inr lb"
| "lb_run lb (op # ops) =
     (case lb_step lb op of Inl e \<Rightarrow> Inl e | Inr lb' \<Rightarrow> lb_run lb' ops)"

text \<open>\<open>k\<close> successive \<^verbatim>\<open>get_next_instance(name)\<close> calls, with the instances they return.\<close>

fun call_get_next :: "load_balancer \<Rightarrow> string \<Rightarrow> nat \<Rightarrow> py_error + (string option list \<times> load_balancer)" where
  "call_get_next lb n 0 = Inr ([], lb)"
| "call_get_next lb n (Suc k) =
     (case get_next_instance lb n of
        Inl e \<Rightarrow> Inl e
      | Inr (r, lb') \<Rightarrow>
          (case call_get_next lb' n k of
             Inl e \<Rightarrow> Inl e
           | Inr (rs, lb'') \<Rightarrow> Inr (r # rs, lb'')))"

text \<open>
  The specification's reading of least-connections selection: the entry \<open>m\<close> of the
  connection table has the minimal count, and every entry before it in iteration order
  has a strictly larger one.
\<close>

definition first_minimum :: "('k \<times> int) list \<Rightarrow> ('k \<times> int) \<Rightarrow> bool" where
  "first_minimum d m \<longleftrightarrow>
     m \<in> set d \<and> (\<forall>p\<in>set d. snd m \<le> snd p) \<and>
     (\<forall>p\<in>set (takeWhile (\<lambda>p. p \<noteq> m) d). snd m < snd p)"

text \<open>The same, as a split of the table around \<open>m\<close> (used in the proofs only).\<close>

definition first_min :: "('k \<times> int) list \<Rightarrow> ('k \<times> int) \<Rightarrow> bool" where
  "first_min d m \<longleftrightarrow> (\<exists>pre post. d = pre @ m # post
      \<and> (\<forall>p\<in>set pre. snd m < snd p) \<and> (\<forall>p\<in>set post. snd m \<le> snd p))"

text \<open>
  The invariant of the balancer: a registered service has a connection table whose keys
  are exactly its instances, each once, with non-negative counts, and a cursor that is
  an index of the instance list (0 when the list is empty).
\<close>

definition conns_ok :: "service \<Rightarrow> (string \<times> int) list \<Rightarrow> bool" where
  "conns_ok svc conns \<longleftrightarrow>
     fst ` set conns = set (instances svc) \<and> distinct (map fst conns) \<and>
     (\<forall>p\<in>set conns. 0 \<le> snd p) \<and> 0 \<le> current_index svc \<and>
     (if instances svc = [] then current_index svc = 0
      else current_index svc < int (length (instances svc)))"

definition lb_inv :: "load_balancer \<Rightarrow> bool" where
  "lb_inv lb \<longleftrightarrow>
     (\<forall>n svc. services lb n = Some svc \<longrightarrow>
        (\<exists>conns. active_connections lb n = Some conns \<and> conns_ok svc conns))"

section \<open>Time (\<^verbatim>\<open>datetime\<close>, \<^verbatim>\<open>timedelta\<close>)\<close>

text \<open>
  A \<^verbatim>\<open>datetime\<close> is its number of microseconds since \<^verbatim>\<open>datetime.min\<close>
  (0001-01-01T00:00:00); the largest one, \<^verbatim>\<open>datetime.max\<close>, is
  9999-12-31T23:59:59.999999. A \<^verbatim>\<open>timedelta\<close> is a number of microseconds.
  \<^verbatim>\<open>timedelta(seconds=s)\<close> raises OverflowError when its day count leaves
  \<open>\<plusminus>999999999\<close>, and adding a \<^verbatim>\<open>timedelta\<close> to a \<^verbatim>\<open>datetime\<close> raises OverflowError
  when the sum is not a \<^verbatim>\<open>datetime\<close>.
\<close>

definition DATETIME_MAX :: int where
  "DATETIME_MAX = 315537897599999999"

definition timedelta_seconds :: "int \<Rightarrow> py_error + int" where
  "timedelta_seconds s =
     (if s div 86400 < - 999999999 \<or> 999999999 < s div 86400 then Inl OverflowError
      else Inr (s * 1000000))"

definition datetime_add :: "int \<Rightarrow> int \<Rightarrow> py_error + int" where
  "datetime_add t d =
     (if t + d < 0 \<or> DATETIME_MAX < t + d then Inl OverflowError else Inr (t + d))"

section \<open>Cache manager (\<^verbatim>\<open>CacheManager\<close> in api/endpoints/performance.py)\<close>

text \<open>
  What a call of the external IronCache client does is not code of this repository: it
  returns or it raises, and the answer is a parameter of the model. \<open>ic_get key\<close> is
  the answer of \<^verbatim>\<open>client.get(cache_name, key)\<close>: no item, or an item with its
  \<^verbatim>\<open>value\<close> attribute (a string or \<^verbatim>\<open>None\<close>). \<open>ic_list_keys\<close> is \<open>None\<close> when the
  client has no \<^verbatim>\<open>list_keys\<close> attribute. \<^verbatim>\<open>json.loads\<close> and \<^verbatim>\<open>json.dumps\<close> raise on
  what they cannot convert.
\<close>

datatype 'a reply = Raises py_error | Returns 'a

record 'v iron_env =
  ic_get :: "string \<Rightarrow> string option option reply"
  ic_put :: "string \<Rightarrow> string \<Rightarrow> int \<Rightarrow> unit reply"
  ic_delete :: "string \<Rightarrow> unit reply"
  ic_list_keys :: "string list reply option"
  json_loads :: "string \<Rightarrow> py_error + 'v"
  json_dumps :: "'v \<Rightarrow> py_error + string"

text \<open>An environment in which every call of the external client raises.\<close>

definition iron_down :: "'v iron_env" where
  "iron_down =
     \<lparr>ic_get = (\<lambda>k. Raises (BackendError ''unreachable'')),
      ic_put = (\<lambda>k s ttl. Raises (BackendError ''unreachable'')),
      ic_delete = (\<lambda>k. Raises (BackendError ''unreachable'')),
      ic_list_keys = None,
      json_loads = (\<lambda>s. Inl ValueError),
      json_dumps = (\<lambda>v. Inl ValueError)\<rparr>"

text \<open>
  An environment in which every call of the external client returns: the client finds
  no item, accepts every \<^verbatim>\<open>put\<close> and \<^verbatim>\<open>delete\<close>, and has no \<^verbatim>\<open>list_keys\<close>
  attribute; \<^verbatim>\<open>json.dumps\<close> yields some text for every value.
\<close>

definition iron_up :: "'v iron_env" where
  "iron_up =
     \<lparr>ic_get = (\<lambda>k. Returns None),
      ic_put = (\<lambda>k s ttl. Returns ()),
      ic_delete = (\<lambda>k. Returns ()),
      ic_list_keys = None,
      json_loads = (\<lambda>s. Inl ValueError),
      json_dumps = (\<lambda>v. Inr ''null'')\<rparr>"

record 'v cache_entry =
  entry_value :: 'v
  expires_at :: int

text \<open>
  \<open>key_registry\<close> is a Python \<^verbatim>\<open>set\<close>: a list without repetitions, in the order in
  which the set happens to be iterated. \<open>client_present\<close> is \<^verbatim>\<open>self.client is not None\<close>.
\<close>

record 'v cache_manager =
  iron_available :: bool
  client_present :: bool
  memory_cache :: "string \<rightharpoonup> 'v cache_entry"
  key_registry :: "string list"

text \<open>The manager that \<^verbatim>\<open>__init__\<close> builds when no IronCache credentials are configured.\<close>

definition cache_init :: "'v cache_manager" where
  "cache_init = \<lparr>iron_available = False, client_present = False,
                 memory_cache = Map.empty, key_registry = []\<rparr>"

definition set_add :: "'a \<Rightarrow> 'a list \<Rightarrow> 'a list" where
  "set_add k ks = (if k \<in> set ks then ks else ks @ [k])"

definition set_discard :: "'a \<Rightarrow> 'a list \<Rightarrow> 'a list" where
  "set_discard k ks = removeAll k ks"


text \<open>
  The body of the \<^verbatim>\<open>try\<close> block of \<^verbatim>\<open>get\<close>; \<open>now\<close> is what \<^verbatim>\<open>datetime.utcnow()\<close>
  reads. A result \<open>None\<close> is Python's \<^verbatim>\<open>None\<close>: the key is reported absent.
\<close>

definition get_try :: "'v iron_env \<Rightarrow> 'v cache_manager \<Rightarrow> int \<Rightarrow> string \<Rightarrow> py_error + 'v option" where
  "get_try env cm now key =
     (if iron_available cm \<and> client_present cm then
        (case ic_get env key of
           Raises e \<Rightarrow> Inl e
         | Returns item \<Rightarrow>
             (case item of
                None \<Rightarrow> Inr None
              | Some None \<Rightarrow> Inr None
              | Some (Some s) \<Rightarrow>
                  if s = [] then Inr None
                  else (case json_loads env s of Inl e \<Rightarrow> Inl e | Inr v \<Rightarrow> Inr (Some v))))
      else
        (case memory_cache cm key of
           None \<Rightarrow> Inr None
         | Some entry \<Rightarrow>
             if expires_at entry > now then Inr (Some (entry_value entry)) else Inr None))"

text \<open>\<^verbatim>\<open>get\<close>: the body, with \<^verbatim>\<open>except Exception\<close> printing the error and returning \<^verbatim>\<open>None\<close>.\<close>

definition get :: "'v iron_env \<Rightarrow> 'v cache_manager \<Rightarrow> int \<Rightarrow> string \<Rightarrow> py_error + 'v option" where
  "get env cm now key =
     (case get_try env cm now key of Inl e \<Rightarrow> Inr None | Inr r \<Rightarrow> Inr r)"

text \<open>
  The body of the \<^verbatim>\<open>try\<close> block of \<^verbatim>\<open>set\<close> (the \<^verbatim>\<open>tags\<close> argument is never read). The
  right-hand side of the assignment to \<^verbatim>\<open>self.memory_cache[key]\<close> is evaluated first, so
  an overflow of the expiry leaves the manager as it was.
\<close>

definition set_try :: "'v iron_env \<Rightarrow> 'v cache_manager \<Rightarrow> int \<Rightarrow> string \<Rightarrow> 'v \<Rightarrow> int \<Rightarrow> py_error + 'v cache_manager" where
  "set_try env cm now key v ttl =
     (if iron_available cm \<and> client_present cm then
        (case json_dumps env v of
           Inl e \<Rightarrow> Inl e
         | Inr s \<Rightarrow>
             (case ic_put env key s ttl of
                Raises e \<Rightarrow> Inl e
              | Returns u \<Rightarrow> Inr (cm\<lparr>key_registry := set_add key (key_registry cm)\<rparr>)))
      else
        (case timedelta_seconds ttl of
           Inl e \<Rightarrow> Inl e
         | Inr d \<Rightarrow>
             (case datetime_add now d of
                Inl e \<Rightarrow> Inl e
              | Inr expiry \<Rightarrow>
                  Inr (cm\<lparr>memory_cache := (memory_cache cm)(key \<mapsto>
                              \<lparr>entry_value = v, expires_at = expiry\<rparr>),
                          key_registry := set_add key (key_registry cm)\<rparr>))))"

definition set_cache :: "'v iron_env \<Rightarrow> 'v cache_manager \<Rightarrow> int \<Rightarrow> string \<Rightarrow> 'v \<Rightarrow> int \<Rightarrow> py_error + 'v cache_manager" where
  "set_cache env cm now key v ttl =
     (case set_try env cm now key v ttl of Inl e \<Rightarrow> Inr cm | Inr cm' \<Rightarrow> Inr cm')"

definition delete :: "'v iron_env \<Rightarrow> 'v cache_manager \<Rightarrow> string \<Rightarrow> py_error + 'v cache_manager" where
  "delete env cm key =
     (if iron_available cm \<and> client_present cm then
        (case ic_delete env key of Raises e \<Rightarrow> Inr cm | Returns u \<Rightarrow> Inr cm)
      else Inr (cm\<lparr>memory_cache := (memory_cache cm)(key := None)\<rparr>))"

definition list_keys :: "'v iron_env \<Rightarrow> 'v cache_manager \<Rightarrow> py_error + string list" where
  "list_keys env cm =
     (if iron_available cm \<and> client_present cm \<and> ic_list_keys env \<noteq> None then
        (case ic_list_keys env of
           Some (Returns ks) \<Rightarrow> Inr ks
         | Some (Raises e) \<Rightarrow> Inl e
         | None \<Rightarrow> Inr (key_registry cm))
      else Inr (key_registry cm))"



fun clear_loop :: "'v iron_env \<Rightarrow> 'v cache_manager \<Rightarrow> string list \<Rightarrow> py_error + 'v cache_manager" where
  "clear_loop env cm [] = Inr cm"
| "clear_loop env cm (key # keys) =
     (if iron_available cm \<and> client_present cm then
        (case ic_delete env key of
           Raises e \<Rightarrow> Inl e
         | Returns u \<Rightarrow> clear_loop env cm keys)
      else
        clear_loop env
          (cm\<lparr>memory_cache := (memory_cache cm)(key := None),
              key_registry := set_discard key (key_registry cm)\<rparr>) keys)"

definition clear_all :: "'v iron_env \<Rightarrow> 'v cache_manager \<Rightarrow> py_error + 'v cache_manager" where
  "clear_all env cm =
     (case list_keys env cm of
        Inl e \<Rightarrow> Inl e
      | Inr keys \<Rightarrow> clear_loop env cm keys)"

section \<open>Rate limiter (\<^verbatim>\<open>AuthMiddleware\<close> in api/auth/auth_middleware.py)\<close>

text \<open>
  The two Supabase tables the limiter uses, as lists of rows in insertion order. Time
  stamps are \<^verbatim>\<open>datetime\<close> values in microseconds, UTC. When \<open>available\<close> is false,
  every \<^verbatim>\<open>execute()\<close> raises.
\<close>

record block_row =
  bl_ip_address :: string
  bl_reason :: string
  bl_blocked_until :: int
  bl_created_at :: int

record rate_row =
  rl_ip_address :: string
  rl_endpoint :: string
  rl_count :: int
  rl_created_at :: int

record supabase =
  available :: bool
  ip_blocklist :: "block_row list"
  rate_limits :: "rate_row list"

text \<open>\<^verbatim>\<open>RATE_LIMITS\<close> and \<^verbatim>\<open>SECURITY_CONFIG['ip_block_duration']\<close> of config/firebase_config.py.\<close>

definition RATE_LIMITS :: "(string \<times> int \<times> int) list" where
  "RATE_LIMITS =
     [(''/auth/register'', 5, 3600),
      (''/auth/login'', 10, 300),
      (''/auth/reset-password'', 3, 3600),
      (''/auth/2fa/verify'', 5, 300),
      (''/chat/general'', 100, 3600),
      (''/chat/general/guest'', 10, 3600),
      (''default'', 100, 3600)]"

definition ip_block_duration :: int where
  "ip_block_duration = 86400"

text \<open>
  \<^verbatim>\<open>RATE_LIMITS.get(endpoint_str, RATE_LIMITS['default'])\<close> for a table \<open>cfg\<close> of
  (requests, window) pairs: the default is looked up first and raises KeyError when the
  table has none.
\<close>

definition rate_limit_for :: "(string \<times> int \<times> int) list \<Rightarrow> string \<Rightarrow> py_error + (int \<times> int)" where
  "rate_limit_for cfg endpoint =
     (case map_of cfg ''default'' of
        None \<Rightarrow> Inl KeyError
      | Some d \<Rightarrow> Inr (case map_of cfg endpoint of None \<Rightarrow> d | Some p \<Rightarrow> p))"

text \<open>
  \<^verbatim>\<open>is_ip_blocked\<close>: the first row of the address decides; an expired block removes every
  row of the address. Any exception gives \<^verbatim>\<open>False\<close>.
\<close>

definition is_ip_blocked :: "supabase \<Rightarrow> int \<Rightarrow> string \<Rightarrow> bool \<times> supabase" where
  "is_ip_blocked db now ip =
     (if \<not> available db then (False, db)
      else
        (case filter (\<lambda>r. bl_ip_address r = ip) (ip_blocklist db) of
           [] \<Rightarrow> (False, db)
         | block_data # rest \<Rightarrow>
             if bl_blocked_until block_data > now then (True, db)
             else (False, db\<lparr>ip_blocklist :=
                               filter (\<lambda>r. bl_ip_address r \<noteq> ip) (ip_blocklist db)\<rparr>)))"

text \<open>
  Modelled from the spec: the schema of \<^verbatim>\<open>ip_blocklist\<close> is not part of the sources; the
  specification identifies a block by its address, so \<^verbatim>\<open>upsert\<close> replaces the row of that
  address and appends when there is none.
\<close>

fun upsert_block :: "block_row \<Rightarrow> block_row list \<Rightarrow> block_row list" where
  "upsert_block r [] = [r]"
| "upsert_block r (x # xs) =
     (if bl_ip_address x = bl_ip_address r then r # xs else x # upsert_block r xs)"

text \<open>\<^verbatim>\<open>block_ip\<close>: any exception is printed and the table stays as it is.\<close>

definition block_ip :: "supabase \<Rightarrow> int \<Rightarrow> string \<Rightarrow> string \<Rightarrow> supabase" where
  "block_ip db now ip reason =
     (case timedelta_seconds ip_block_duration of
        Inl e \<Rightarrow> db
      | Inr d \<Rightarrow>
          (case datetime_add now d of
             Inl e \<Rightarrow> db
           | Inr until \<Rightarrow>
               if \<not> available db then db
               else db\<lparr>ip_blocklist :=
                        upsert_block \<lparr>bl_ip_address = ip, bl_reason = reason,
                                      bl_blocked_until = until, bl_created_at = now\<rparr>
                          (ip_blocklist db)\<rparr>))"

definition get_rate_limit_count :: "supabase \<Rightarrow> string \<Rightarrow> string \<Rightarrow> int \<Rightarrow> int" where
  "get_rate_limit_count db ip endpoint window_start =
     (if \<not> available db then 0
      else sum_list (map rl_count
             (filter (\<lambda>r. rl_ip_address r = ip \<and> rl_endpoint r = endpoint
                          \<and> window_start \<le> rl_created_at r) (rate_limits db))))"

definition increment_rate_limit :: "supabase \<Rightarrow> int \<Rightarrow> string \<Rightarrow> string \<Rightarrow> supabase" where
  "increment_rate_limit db now ip endpoint =
     (if \<not> available db then db
      else db\<lparr>rate_limits := rate_limits db @
               [\<lparr>rl_ip_address = ip, rl_endpoint = endpoint, rl_count = 1, rl_created_at = now\<rparr>]\<rparr>)"

text \<open>
  How a call of \<^verbatim>\<open>check_rate_limit\<close> ends: it returns a value, it raises
  \<^verbatim>\<open>HTTPException(status_code, detail)\<close>, or another exception is raised inside.
\<close>

datatype check_result = Returned bool | HTTPRaised int string | OtherRaised py_error

text \<open>
  The body of the \<^verbatim>\<open>try\<close> block. \<open>now\<close> is the UTC clock (\<^verbatim>\<open>datetime.utcnow()\<close>,
  \<^verbatim>\<open>datetime.now(timezone.utc)\<close>); the window start is computed from the local clock
  \<^verbatim>\<open>datetime.now()\<close>, which reads \<open>now + tz\<close> for the UTC offset \<open>tz\<close> of the server.
  \<open>ip\<close> is \<^verbatim>\<open>request.client.host\<close> and \<open>endpoint\<close> is \<^verbatim>\<open>endpoint_str\<close>.
\<close>

definition check_rate_limit_try :: "(string \<times> int \<times> int) list \<Rightarrow> int \<Rightarrow> supabase \<Rightarrow> int \<Rightarrow> string \<Rightarrow> string \<Rightarrow> check_result \<times> supabase" where
  "check_rate_limit_try cfg tz db now ip endpoint =
     (case is_ip_blocked db now ip of
        (True, db1) \<Rightarrow> (HTTPRaised 429 ''IP address blocked'', db1)
      | (False, db1) \<Rightarrow>
          (case rate_limit_for cfg endpoint of
             Inl e \<Rightarrow> (OtherRaised e, db1)
           | Inr (max_requests, window) \<Rightarrow>
               (case timedelta_seconds window of
                  Inl e \<Rightarrow> (OtherRaised e, db1)
                | Inr w \<Rightarrow>
                    (case datetime_add (now + tz) (- w) of
                       Inl e \<Rightarrow> (OtherRaised e, db1)
                     | Inr window_start \<Rightarrow>
                         if get_rate_limit_count db1 ip endpoint window_start \<ge> max_requests
                         then (HTTPRaised 429 ''Rate limit exceeded'',
                               block_ip db1 now ip ''rate_limit_exceeded'')
                         else (Returned True, increment_rate_limit db1 now ip endpoint)))))"

text \<open>
  \<^verbatim>\<open>check_rate_limit\<close>: an \<^verbatim>\<open>HTTPException\<close> is raised again, any other exception is
  printed and the request is allowed.
\<close>

definition check_rate_limit :: "(string \<times> int \<times> int) list \<Rightarrow> int \<Rightarrow> supabase \<Rightarrow> int \<Rightarrow> string \<Rightarrow> string \<Rightarrow> check_result \<times> supabase" where
  "check_rate_limit cfg tz db now ip endpoint =
     (case check_rate_limit_try cfg tz db now ip endpoint of
        (OtherRaised e, db') \<Rightarrow> (Returned True, db')
      | (r, db') \<Rightarrow> (r, db'))"

text \<open>Successive calls for one address and endpoint, at the given clock readings.\<close>

fun check_calls :: "(string \<times> int \<times> int) list \<Rightarrow> int \<Rightarrow> supabase \<Rightarrow> string \<Rightarrow> string \<Rightarrow> int list \<Rightarrow> check_result list \<times> supabase" where
  "check_calls cfg tz db ip endpoint [] = ([], db)"
| "check_calls cfg tz db ip endpoint (t # ts) =
     (case check_rate_limit cfg tz db t ip endpoint of
        (r, db1) \<Rightarrow>
          (case check_calls cfg tz db1 ip endpoint ts of
             (rs, db2) \<Rightarrow> (r # rs, db2)))"

text \<open>The sum that \<^verbatim>\<open>get_rate_limit_count\<close> computes, on the rows of the table.\<close>

definition count_rows :: "rate_row list \<Rightarrow> string \<Rightarrow> string \<Rightarrow> int \<Rightarrow> int" where
  "count_rows rows ip ep ws =
     sum_list (map rl_count
       (filter (\<lambda>r. rl_ip_address r = ip \<and> rl_endpoint r = ep \<and> ws \<le> rl_created_at r) rows))"

section \<open>Load balancer: auxiliary facts\<close>

lemma map_of_foldl_update:
  "map_of (foldl (\<lambda>d k. AList.update k v d) d ks) x = (if x \<in> set ks then Some v else map_of d x)"
  by (induction ks arbitrary: d) (auto simp: update_conv')

lemma map_of_dict_comp: "map_of (dict_comp ks v) x = (if x \<in> set ks then Some v else None)"
  by (simp add: dict_comp_def map_of_foldl_update)

lemma keys_foldl_update:
  "fst ` set (foldl (\<lambda>d k. AList.update k v d) d ks) = fst ` set d \<union> set ks"
  by (induction ks arbitrary: d) (auto simp: dom_update dom_map_of_conv_image_fst[symmetric] update_conv')

lemma keys_dict_comp: "fst ` set (dict_comp ks v) = set ks"
  by (simp add: dict_comp_def keys_foldl_update)

lemma distinct_foldl_update:
  "distinct (map fst d) \<Longrightarrow> distinct (map fst (foldl (\<lambda>d k. AList.update k v d) d ks))"
  by (induction ks arbitrary: d) (auto simp: distinct_update)

lemma distinct_dict_comp: "distinct (map fst (dict_comp ks v))"
  by (simp add: dict_comp_def distinct_foldl_update)

lemma vals_foldl_update:
  "snd ` set (foldl (\<lambda>d k. AList.update k v d) d ks) \<subseteq> insert v (snd ` set d)"
proof (induction ks arbitrary: d)
  case Nil show ?case by auto
next
  case (Cons k ks)
  have "snd ` set (AList.update k v d) \<subseteq> insert v (snd ` set d)"
    by (induction d) auto
  with Cons[of "AList.update k v d"] show ?case by auto
qed

lemma vals_dict_comp: "(k, c) \<in> set (dict_comp ks v) \<Longrightarrow> c = v"
  using vals_foldl_update[of v "[]" ks] by (auto simp: dict_comp_def)

lemma min_scan_le_all: "\<forall>p\<in>set (b # ps). snd (min_scan b ps) \<le> snd p"
proof (induction ps arbitrary: b)
  case Nil
  show ?case by simp
next
  case (Cons q ps)
  show ?case
  proof (cases "snd q < snd b")
    case True
    with Cons[of q] show ?thesis by auto
  next
    case False
    with Cons[of b] show ?thesis by auto
  qed
qed

lemma first_minI:
  "d = pre @ m # post \<Longrightarrow> \<forall>p\<in>set pre. snd m < snd p \<Longrightarrow> \<forall>p\<in>set post. snd m \<le> snd p
   \<Longrightarrow> first_min d m"
  unfolding first_min_def by blast

lemma min_scan_first: "first_min (b # ps) (min_scan b ps)"
proof (induction ps arbitrary: b)
  case Nil
  show ?case by (rule first_minI[of _ "[]" _ "[]"]) simp_all
next
  case (Cons p ps)
  let ?b' = "if snd p < snd b then p else b"
  let ?m = "min_scan ?b' ps"
  have eq: "min_scan b (p # ps) = ?m" by simp
  from Cons[of ?b'] obtain pre post where
    split: "?b' # ps = pre @ ?m # post"
    and lt: "\<forall>q\<in>set pre. snd ?m < snd q"
    and le: "\<forall>q\<in>set post. snd ?m \<le> snd q"
    unfolding first_min_def by blast
  have m_le: "snd ?m \<le> snd ?b'"
    using min_scan_le_all[of ?b' ps] by simp
  show ?case unfolding eq
  proof (cases "snd p < snd b")
    case True
    have "b # p # ps = (b # pre) @ ?m # post" using split True by simp
    moreover have "\<forall>q\<in>set (b # pre). snd ?m < snd q" using lt m_le True by auto
    ultimately show "first_min (b # p # ps) ?m" using le by (rule first_minI)
  next
    case False
    show "first_min (b # p # ps) ?m"
    proof (cases pre)
      case Nil
      have mb: "?m = b" and post: "post = ps" using split False Nil by auto
      have "b # p # ps = [] @ ?m # (p # ps)" using mb by simp
      moreover have "\<forall>q\<in>set []. snd ?m < snd q" by simp
      moreover have "\<forall>q\<in>set (p # ps). snd ?m \<le> snd q" using le post mb False by auto
      ultimately show ?thesis by (rule first_minI)
    next
      case (Cons x pre')
      have xb: "x = b" and ps: "ps = pre' @ ?m # post" using split False Cons by auto
      have "b # p # ps = (b # p # pre') @ ?m # post" using ps by simp
      moreover have "\<forall>q\<in>set (b # p # pre'). snd ?m < snd q" using lt Cons False xb by auto
      ultimately show ?thesis using le by (rule first_minI)
    qed
  qed
qed

lemma min_scan_first_minimum: "first_minimum (b # ps) (min_scan b ps)"
proof -
  from min_scan_first[of b ps] obtain pre post where
    split: "b # ps = pre @ min_scan b ps # post"
    and lt: "\<forall>p\<in>set pre. snd (min_scan b ps) < snd p"
    unfolding first_min_def by blast
  define m where "m = min_scan b ps"
  have "m \<notin> set pre" using lt unfolding m_def by auto
  then have "takeWhile (\<lambda>p. p \<noteq> m) (pre @ m # post) = pre"
    by (induction pre) auto
  then have tw: "takeWhile (\<lambda>p. p \<noteq> m) (b # ps) = pre"
    using split unfolding m_def by simp
  have mem: "m \<in> set (b # ps)"
    using split unfolding m_def by (metis in_set_conv_decomp)
  show ?thesis
    unfolding first_minimum_def m_def[symmetric]
    using tw mem lt min_scan_le_all[of b ps] unfolding m_def[symmetric] by simp
qed

lemma update_vals_nonneg:
  "\<forall>p\<in>set d. 0 \<le> snd p \<Longrightarrow> (0::int) \<le> v \<Longrightarrow> q \<in> set (AList.update k v d) \<Longrightarrow> 0 \<le> snd q"
  by (induction d) (auto split: if_splits)

lemma update_keys_same:
  "k \<in> fst ` set d \<Longrightarrow> fst ` set (AList.update k v d) = fst ` set d"
  by (induction d) auto

lemma conns_ok_update:
  assumes "conns_ok svc conns" "k \<in> fst ` set conns" "0 \<le> v"
  shows "conns_ok svc (AList.update k v conns)"
  using assms unfolding conns_ok_def
  by (auto simp: update_keys_same distinct_update dest: update_vals_nonneg)

lemma conns_ok_register: "conns_ok \<lparr>instances = insts, algorithm = alg, current_index = 0,
             health_status = hs\<rparr> (dict_comp insts 0)"
  unfolding conns_ok_def
  by (auto simp: keys_dict_comp distinct_dict_comp dest: vals_dict_comp)

lemma lb_inv_init: "lb_inv lb_init"
  by (simp add: lb_inv_def lb_init_def)

lemma lb_inv_register: "lb_inv lb \<Longrightarrow> lb_inv (register_service lb n insts alg)"
  unfolding lb_inv_def register_service_def
  by (auto simp: conns_ok_register)

lemma lb_inv_release: "lb_inv lb \<Longrightarrow> lb_inv (release_instance lb n inst)"
proof -
  assume inv: "lb_inv lb"
  show ?thesis
  proof (cases "active_connections lb n")
    case None
    then show ?thesis using inv by (simp add: release_instance_def)
  next
    case (Some conns)
    show ?thesis
    proof (cases "map_of conns inst")
      case None
      then show ?thesis using inv Some by (simp add: release_instance_def)
    next
      case (Some c)
      have k: "inst \<in> fst ` set conns" using map_of_SomeD[OF Some] by force
      have rel: "release_instance lb n inst = lb\<lparr>active_connections :=
                    (active_connections lb)(n \<mapsto> AList.update inst (max 0 (c - 1)) conns)\<rparr>"
        using Some \<open>active_connections lb n = Some conns\<close> by (simp add: release_instance_def)
      show ?thesis unfolding rel lb_inv_def
      proof (intro allI impI)
        fix m svc
        assume s: "services (lb\<lparr>active_connections :=
                    (active_connections lb)(n \<mapsto> AList.update inst (max 0 (c - 1)) conns)\<rparr>) m = Some svc"
        then have s': "services lb m = Some svc" by simp
        then obtain cs where cs: "active_connections lb m = Some cs" "conns_ok svc cs"
          using inv unfolding lb_inv_def by blast
        show "\<exists>conns'. active_connections (lb\<lparr>active_connections :=
                    (active_connections lb)(n \<mapsto> AList.update inst (max 0 (c - 1)) conns)\<rparr>) m = Some conns'
                \<and> conns_ok svc conns'"
        proof (cases "m = n")
          case True
          then have "cs = conns" using cs \<open>active_connections lb n = Some conns\<close> by simp
          then have "conns_ok svc (AList.update inst (max 0 (c - 1)) conns)"
            using cs k by (simp add: conns_ok_update)
          then show ?thesis using True by simp
        next
          case False
          then show ?thesis using cs by simp
        qed
      qed
    qed
  qed
qed

lemma incr_connection_ok:
  "active_connections lb n = Some conns \<Longrightarrow> map_of conns inst = Some c \<Longrightarrow>
   incr_connection lb n inst =
     Inr (lb\<lparr>active_connections := (active_connections lb)(n \<mapsto> AList.update inst (c + 1) conns)\<rparr>)"
  by (simp add: incr_connection_def dict_incr_def)

lemma conns_ok_lookup:
  assumes "conns_ok svc conns" "inst \<in> set (instances svc)"
  shows "\<exists>c. map_of conns inst = Some c \<and> 0 \<le> c"
proof -
  from assms have "inst \<in> fst ` set conns" by (simp add: conns_ok_def)
  then obtain c where "(inst, c) \<in> set conns" by force
  moreover from assms have "distinct (map fst conns)" by (simp add: conns_ok_def)
  ultimately have "map_of conns inst = Some c" by simp
  moreover have "0 \<le> c" using assms(1) \<open>(inst, c) \<in> set conns\<close> by (force simp: conns_ok_def)
  ultimately show ?thesis by blast
qed

lemma lb_inv_set_both:
  assumes "lb_inv lb" "conns_ok svc' conns'"
  shows "lb_inv (lb\<lparr>services := (services lb)(n \<mapsto> svc'),
                    active_connections := (active_connections lb)(n \<mapsto> conns')\<rparr>)"
  using assms unfolding lb_inv_def by auto

lemma lb_inv_set_conns:
  assumes "lb_inv lb" "services lb n = Some svc" "conns_ok svc conns'"
  shows "lb_inv (lb\<lparr>active_connections := (active_connections lb)(n \<mapsto> conns')\<rparr>)"
  using assms unfolding lb_inv_def by auto

lemma conns_ok_advance:
  assumes "conns_ok svc conns" "instances svc \<noteq> []"
  shows "conns_ok (svc\<lparr>current_index := (current_index svc + 1) mod int (length (instances svc))\<rparr>) conns"
  using assms unfolding conns_ok_def by simp

lemma get_next_round_robin:
  assumes svc: "services lb n = Some svc" and ne: "instances svc \<noteq> []"
    and alg: "algorithm svc = ''round_robin''"
    and conns: "active_connections lb n = Some conns" and ok: "conns_ok svc conns"
  shows "\<exists>c. map_of conns (instances svc ! nat (current_index svc)) = Some c \<and> 0 \<le> c \<and>
     py_index (instances svc) (current_index svc) = Inr (instances svc ! nat (current_index svc)) \<and>
     get_next_instance lb n =
       Inr (Some (instances svc ! nat (current_index svc)),
            lb\<lparr>services := (services lb)(n \<mapsto>
                   svc\<lparr>current_index := (current_index svc + 1) mod int (length (instances svc))\<rparr>),
               active_connections := (active_connections lb)(n \<mapsto>
                   AList.update (instances svc ! nat (current_index svc)) (c + 1) conns)\<rparr>)"
proof -
  let ?i = "current_index svc"
  let ?inst = "instances svc ! nat ?i"
  have rng: "0 \<le> ?i" "?i < int (length (instances svc))"
    using ok ne by (simp_all add: conns_ok_def)
  then have idx: "py_index (instances svc) ?i = Inr ?inst"
    by (simp add: py_index_def Let_def)
  have "?inst \<in> set (instances svc)" using rng by simp
  from conns_ok_lookup[OF ok this] obtain c where c: "map_of conns ?inst = Some c" "0 \<le> c"
    by blast
  let ?lb' = "lb\<lparr>services := (services lb)(n \<mapsto>
                   svc\<lparr>current_index := (?i + 1) mod int (length (instances svc))\<rparr>)\<rparr>"
  have "active_connections ?lb' n = Some conns" using conns by simp
  from incr_connection_ok[OF this c(1)]
  have "get_next_instance lb n = Inr (Some ?inst,
            ?lb'\<lparr>active_connections := (active_connections ?lb')(n \<mapsto> AList.update ?inst (c + 1) conns)\<rparr>)"
    using svc ne alg idx by (simp add: get_next_instance_def Let_def)
  then show ?thesis using c idx by auto
qed

lemma get_next_least_connections:
  assumes svc: "services lb n = Some svc" and ne: "instances svc \<noteq> []"
    and alg: "algorithm svc = ''least_connections''"
    and conns: "active_connections lb n = Some conns" and ok: "conns_ok svc conns"
  shows "\<exists>m. first_minimum conns m \<and> map_of conns (fst m) = Some (snd m) \<and>
     get_next_instance lb n =
       Inr (Some (fst m),
            lb\<lparr>active_connections := (active_connections lb)(n \<mapsto>
                   AList.update (fst m) (snd m + 1) conns)\<rparr>)"
proof -
  have "conns \<noteq> []" using ok ne by (auto simp: conns_ok_def)
  then obtain p ps where ps: "conns = p # ps" by (cases conns) auto
  let ?m = "min_scan p ps"
  have fm: "first_minimum conns ?m" unfolding ps by (rule min_scan_first_minimum)
  then have "?m \<in> set conns" by (simp add: first_minimum_def)
  moreover have "distinct (map fst conns)" using ok by (simp add: conns_ok_def)
  ultimately have look: "map_of conns (fst ?m) = Some (snd ?m)" by simp
  have key: "py_min_key conns = Inr (fst ?m)" by (simp add: py_min_key_def ps)
  have "get_next_instance lb n = Inr (Some (fst ?m),
            lb\<lparr>active_connections := (active_connections lb)(n \<mapsto>
                   AList.update (fst ?m) (snd ?m + 1) conns)\<rparr>)"
    using svc ne alg conns key incr_connection_ok[OF conns look]
    by (simp add: get_next_instance_def)
  with fm look show ?thesis by blast
qed

lemma get_next_fixed_first:
  assumes svc: "services lb n = Some svc" and ne: "instances svc \<noteq> []"
    and alg: "algorithm svc \<noteq> ''round_robin''" "algorithm svc \<noteq> ''least_connections''"
    and conns: "active_connections lb n = Some conns" and ok: "conns_ok svc conns"
  shows "\<exists>c. map_of conns (hd (instances svc)) = Some c \<and> 0 \<le> c \<and>
     get_next_instance lb n =
       Inr (Some (hd (instances svc)),
            lb\<lparr>active_connections := (active_connections lb)(n \<mapsto>
                   AList.update (hd (instances svc)) (c + 1) conns)\<rparr>)"
proof -
  have idx: "py_index (instances svc) 0 = Inr (hd (instances svc))"
    using ne by (cases "instances svc") (simp_all add: py_index_def Let_def)
  have "hd (instances svc) \<in> set (instances svc)" using ne by simp
  from conns_ok_lookup[OF ok this] obtain c where c: "map_of conns (hd (instances svc)) = Some c" "0 \<le> c"
    by blast
  have "get_next_instance lb n = Inr (Some (hd (instances svc)),
            lb\<lparr>active_connections := (active_connections lb)(n \<mapsto>
                   AList.update (hd (instances svc)) (c + 1) conns)\<rparr>)"
    using svc ne alg idx incr_connection_ok[OF conns c(1)]
    by (simp add: get_next_instance_def)
  with c show ?thesis by blast
qed

lemma get_next_inv:
  assumes inv: "lb_inv lb"
  shows "\<exists>r lb'. get_next_instance lb n = Inr (r, lb') \<and> lb_inv lb'"
proof (cases "services lb n")
  case None
  then show ?thesis using inv by (simp add: get_next_instance_def)
next
  case (Some svc)
  then obtain conns where conns: "active_connections lb n = Some conns" and ok: "conns_ok svc conns"
    using inv unfolding lb_inv_def by blast
  show ?thesis
  proof (cases "instances svc = []")
    case True
    then show ?thesis using inv Some by (simp add: get_next_instance_def)
  next
    case ne: False
    consider (rr) "algorithm svc = ''round_robin''"
      | (lc) "algorithm svc = ''least_connections''"
      | (other) "algorithm svc \<noteq> ''round_robin''" "algorithm svc \<noteq> ''least_connections''"
      by blast
    then show ?thesis
    proof cases
      case rr
      from get_next_round_robin[OF Some ne rr conns ok] obtain c where
        c: "map_of conns (instances svc ! nat (current_index svc)) = Some c" "0 \<le> c"
        and g: "get_next_instance lb n =
          Inr (Some (instances svc ! nat (current_index svc)),
            lb\<lparr>services := (services lb)(n \<mapsto>
                   svc\<lparr>current_index := (current_index svc + 1) mod int (length (instances svc))\<rparr>),
               active_connections := (active_connections lb)(n \<mapsto>
                   AList.update (instances svc ! nat (current_index svc)) (c + 1) conns)\<rparr>)"
        by blast
      have "instances svc ! nat (current_index svc) \<in> fst ` set conns"
        using map_of_SomeD[OF c(1)] by force
      then have "conns_ok (svc\<lparr>current_index := (current_index svc + 1) mod int (length (instances svc))\<rparr>)
          (AList.update (instances svc ! nat (current_index svc)) (c + 1) conns)"
        using conns_ok_update[OF conns_ok_advance[OF ok ne]] c(2) by simp
      from lb_inv_set_both[OF inv this] show ?thesis using g by blast
    next
      case lc
      from get_next_least_connections[OF Some ne lc conns ok] obtain m where
        m: "first_minimum conns m" "map_of conns (fst m) = Some (snd m)"
        and g: "get_next_instance lb n =
          Inr (Some (fst m), lb\<lparr>active_connections := (active_connections lb)(n \<mapsto>
                   AList.update (fst m) (snd m + 1) conns)\<rparr>)"
        by blast
      have mem: "m \<in> set conns" using m(1) by (simp add: first_minimum_def)
      then have "0 \<le> snd m" using ok by (simp add: conns_ok_def)
      moreover have "fst m \<in> fst ` set conns" using mem by simp
      ultimately have "conns_ok svc (AList.update (fst m) (snd m + 1) conns)"
        using conns_ok_update[OF ok] by simp
      from lb_inv_set_conns[OF inv Some this] show ?thesis using g by blast
    next
      case other
      from get_next_fixed_first[OF Some ne other conns ok] obtain c where
        c: "map_of conns (hd (instances svc)) = Some c" "0 \<le> c"
        and g: "get_next_instance lb n =
          Inr (Some (hd (instances svc)), lb\<lparr>active_connections := (active_connections lb)(n \<mapsto>
                   AList.update (hd (instances svc)) (c + 1) conns)\<rparr>)"
        by blast
      have "hd (instances svc) \<in> fst ` set conns" using map_of_SomeD[OF c(1)] by force
      then have "conns_ok svc (AList.update (hd (instances svc)) (c + 1) conns)"
        using conns_ok_update[OF ok] c(2) by simp
      from lb_inv_set_conns[OF inv Some this] show ?thesis using g by blast
    qed
  qed
qed

lemma lb_step_inv:
  assumes "lb_inv lb"
  shows "\<exists>lb'. lb_step lb op = Inr lb' \<and> lb_inv lb'"
proof (cases op)
  case (Register n insts alg)
  then show ?thesis using assms by (simp add: lb_inv_register)
next
  case (GetNext n)
  from get_next_inv[OF assms, of n] obtain r lb' where
    "get_next_instance lb n = Inr (r, lb')" "lb_inv lb'" by blast
  then show ?thesis using GetNext by simp
next
  case (Release n inst)
  then show ?thesis using assms by (simp add: lb_inv_release)
qed

lemma lb_run_inv: "lb_inv lb \<Longrightarrow> \<exists>lb'. lb_run lb ops = Inr lb' \<and> lb_inv lb'"
proof (induction ops arbitrary: lb)
  case Nil
  then show ?case by simp
next
  case (Cons op ops)
  from lb_step_inv[OF Cons.prems, of op] obtain lb1 where
    s: "lb_step lb op = Inr lb1" and i: "lb_inv lb1" by blast
  from Cons.IH[OF i] show ?case using s by simp
qed

lemma map_of_health_loop:
  "map_of (health_loop probe hs insts) i =
     (if i \<in> set insts then Some (probe_healthy (probe i)) else map_of hs i)"
  by (induction insts arbitrary: hs) (auto simp: update_conv')

lemma round_robin_step:
  assumes svc: "services lb n = Some svc" and ne: "instances svc \<noteq> []"
    and alg: "algorithm svc = ''round_robin''"
    and conns: "active_connections lb n = Some conns" and ok: "conns_ok svc conns"
  shows "\<exists>lb' conns'. get_next_instance lb n = Inr (Some (instances svc ! nat (current_index svc)), lb')
     \<and> py_index (instances svc) (current_index svc) = Inr (instances svc ! nat (current_index svc))
     \<and> services lb' n =
         Some (svc\<lparr>current_index := (current_index svc + 1) mod int (length (instances svc))\<rparr>)
     \<and> active_connections lb' n = Some conns'
     \<and> conns_ok (svc\<lparr>current_index := (current_index svc + 1) mod int (length (instances svc))\<rparr>) conns'"
proof -
  from get_next_round_robin[OF svc ne alg conns ok] obtain c where
    c: "map_of conns (instances svc ! nat (current_index svc)) = Some c" "0 \<le> c"
    and idx: "py_index (instances svc) (current_index svc) = Inr (instances svc ! nat (current_index svc))"
    and g: "get_next_instance lb n =
          Inr (Some (instances svc ! nat (current_index svc)),
            lb\<lparr>services := (services lb)(n \<mapsto>
                   svc\<lparr>current_index := (current_index svc + 1) mod int (length (instances svc))\<rparr>),
               active_connections := (active_connections lb)(n \<mapsto>
                   AList.update (instances svc ! nat (current_index svc)) (c + 1) conns)\<rparr>)"
    by blast
  have "instances svc ! nat (current_index svc) \<in> fst ` set conns"
    using map_of_SomeD[OF c(1)] by force
  then have "conns_ok (svc\<lparr>current_index := (current_index svc + 1) mod int (length (instances svc))\<rparr>)
          (AList.update (instances svc ! nat (current_index svc)) (c + 1) conns)"
    using conns_ok_update[OF conns_ok_advance[OF ok ne]] c(2) by simp
  then show ?thesis using g idx by simp
qed

lemma round_robin_abca:
  "\<exists>lb'. call_get_next (register_service lb n [A, B, C] ''round_robin'') n 4
            = Inr ([Some A, Some B, Some C, Some A], lb')"
proof -
  let ?s0 = "\<lparr>instances = [A, B, C], algorithm = ''round_robin'', current_index = 0,
              health_status = dict_comp [A, B, C] True\<rparr>"
  let ?lb0 = "register_service lb n [A, B, C] ''round_robin''"
  have s0: "services ?lb0 n = Some ?s0" by (simp add: register_service_def)
  have c0: "active_connections ?lb0 n = Some (dict_comp [A, B, C] 0)"
    by (simp add: register_service_def)
  have ok0: "conns_ok ?s0 (dict_comp [A, B, C] 0)" by (rule conns_ok_register)
  from round_robin_step[OF s0 _ _ c0 ok0] obtain lb1 conns1 where
    g1: "get_next_instance ?lb0 n = Inr (Some A, lb1)"
    and s1: "services lb1 n = Some (?s0\<lparr>current_index := 1\<rparr>)"
    and c1: "active_connections lb1 n = Some conns1"
    and ok1: "conns_ok (?s0\<lparr>current_index := 1\<rparr>) conns1"
    by auto
  from round_robin_step[OF s1 _ _ c1 ok1] obtain lb2 conns2 where
    g2: "get_next_instance lb1 n = Inr (Some B, lb2)"
    and s2: "services lb2 n = Some (?s0\<lparr>current_index := 2\<rparr>)"
    and c2: "active_connections lb2 n = Some conns2"
    and ok2: "conns_ok (?s0\<lparr>current_index := 2\<rparr>) conns2"
    by auto
  from round_robin_step[OF s2 _ _ c2 ok2] obtain lb3 conns3 where
    g3: "get_next_instance lb2 n = Inr (Some C, lb3)"
    and s3: "services lb3 n = Some (?s0\<lparr>current_index := 0\<rparr>)"
    and c3: "active_connections lb3 n = Some conns3"
    and ok3: "conns_ok (?s0\<lparr>current_index := 0\<rparr>) conns3"
    by auto
  from round_robin_step[OF s3 _ _ c3 ok3] obtain lb4 where
    g4: "get_next_instance lb3 n = Inr (Some A, lb4)"
    by auto
  have "call_get_next ?lb0 n 4 = Inr ([Some A, Some B, Some C, Some A], lb4)"
    using g1 g2 g3 g4 by (simp add: numeral_eq_Suc)
  then show ?thesis by blast
qed

lemma reachable_inv: "lb_run lb_init ops = Inr lb \<Longrightarrow> lb_inv lb"
  using lb_run_inv[OF lb_inv_init, of ops] by simp

lemma least_connections_scenario:
  assumes "A \<noteq> B"
  shows "\<exists>lb4. call_get_next (register_service lb0 n [A, B] ''least_connections'') n 4
               = Inr ([Some A, Some B, Some A, Some B], lb4)
          \<and> active_connections lb4 n = Some [(A, 2), (B, 2)]
          \<and> active_connections (release_instance lb4 n A) n = Some [(A, 1), (B, 2)]
          \<and> map_sum id fst (get_next_instance (release_instance lb4 n A) n) = Inr (Some A)"
  using assms
  by (simp add: numeral_eq_Suc register_service_def dict_comp_def get_next_instance_def
      py_min_key_def incr_connection_def dict_incr_def release_instance_def)

lemma release_cases:
  "(active_connections lb n = None \<longrightarrow> release_instance lb n i = lb)
   \<and> (\<forall>conns. active_connections lb n = Some conns \<longrightarrow> map_of conns i = None \<longrightarrow>
            release_instance lb n i = lb)
   \<and> (\<forall>conns c. active_connections lb n = Some conns \<longrightarrow> map_of conns i = Some c \<longrightarrow>
            release_instance lb n i =
              lb\<lparr>active_connections :=
                   (active_connections lb)(n \<mapsto> AList.update i (max 0 (c - 1)) conns)\<rparr>)"
  by (simp add: release_instance_def)

section \<open>Cache manager: auxiliary facts\<close>


lemma get_memory:
  "\<not> iron_available cm \<Longrightarrow>
   get env cm now key =
     Inr (case memory_cache cm key of
            None \<Rightarrow> None
          | Some entry \<Rightarrow> if expires_at entry > now then Some (entry_value entry) else None)"
  by (simp add: get_def get_try_def split: option.splits)

lemma timedelta_seconds_ok:
  "- 86399999913600 \<le> s \<Longrightarrow> s \<le> 86399999999999 \<Longrightarrow> timedelta_seconds s = Inr (s * 1000000)"
proof -
  assume lo: "- 86399999913600 \<le> s" and hi: "s \<le> 86399999999999"
  have "(- 86399999913600) div 86400 \<le> s div (86400::int)"
    using lo by (intro zdiv_mono1) simp_all
  moreover have "s div 86400 \<le> 86399999999999 div (86400::int)"
    using hi by (intro zdiv_mono1) simp_all
  ultimately have "- 999999999 \<le> s div 86400" "s div 86400 \<le> 999999999" by simp_all
  then show ?thesis by (simp add: timedelta_seconds_def)
qed

lemma set_cache_memory:
  assumes "\<not> iron_available cm" "0 < ttl" "0 \<le> now" "now + ttl * 1000000 \<le> DATETIME_MAX"
  shows "set_cache env cm now key v ttl =
     Inr (cm\<lparr>memory_cache := (memory_cache cm)(key \<mapsto>
                \<lparr>entry_value = v, expires_at = now + ttl * 1000000\<rparr>),
             key_registry := set_add key (key_registry cm)\<rparr>)"
proof -
  have "ttl \<le> 86399999999999" using assms by (simp add: DATETIME_MAX_def)
  then have td: "timedelta_seconds ttl = Inr (ttl * 1000000)"
    using assms(2) by (intro timedelta_seconds_ok) simp_all
  have da: "datetime_add now (ttl * 1000000) = Inr (now + ttl * 1000000)"
    using assms by (simp add: datetime_add_def)
  show ?thesis using assms(1) td da by (simp add: set_cache_def set_try_def)
qed



lemma set_cache_memory_general:
  assumes "\<not> iron_available cm" "- 999999999 \<le> ttl div 86400" "ttl div 86400 \<le> 999999999"
    "0 \<le> now + ttl * 1000000" "now + ttl * 1000000 \<le> DATETIME_MAX"
  shows "set_cache env cm now key v ttl =
     Inr (cm\<lparr>memory_cache := (memory_cache cm)(key \<mapsto>
                \<lparr>entry_value = v, expires_at = now + ttl * 1000000\<rparr>),
             key_registry := set_add key (key_registry cm)\<rparr>)"
  using assms by (simp add: set_cache_def set_try_def timedelta_seconds_def datetime_add_def)

lemma set_cache_registry_grows:
  "\<exists>cm1. set_cache env cm now key v ttl = Inr cm1 \<and> set (key_registry cm) \<subseteq> set (key_registry cm1)"
  by (auto simp: set_cache_def set_try_def set_add_def split: sum.splits reply.splits)

section \<open>Rate limiter: auxiliary facts\<close>

lemma is_ip_blocked_none:
  "available db \<Longrightarrow> \<forall>r\<in>set (ip_blocklist db). bl_ip_address r \<noteq> ip \<Longrightarrow>
   is_ip_blocked db now ip = (False, db)"
proof -
  assume a: "available db" and n: "\<forall>r\<in>set (ip_blocklist db). bl_ip_address r \<noteq> ip"
  have "filter (\<lambda>r. bl_ip_address r = ip) (ip_blocklist db) = []"
    using n by (simp add: filter_empty_conv)
  then show ?thesis using a by (simp add: is_ip_blocked_def)
qed

lemma upsert_block_new:
  "\<forall>r\<in>set rows. bl_ip_address r \<noteq> bl_ip_address b \<Longrightarrow> upsert_block b rows = rows @ [b]"
  by (induction rows) auto

lemma filter_block_append:
  "\<forall>r\<in>set rows. bl_ip_address r \<noteq> ip \<Longrightarrow> bl_ip_address b = ip \<Longrightarrow>
   filter (\<lambda>r. bl_ip_address r = ip) (rows @ [b]) = [b]
   \<and> filter (\<lambda>r. bl_ip_address r \<noteq> ip) (rows @ [b]) = rows"
  by (simp add: filter_empty_conv filter_id_conv)

lemma window_start_ok:
  assumes "0 \<le> w" "w \<le> 86399999999999" "w * 1000000 \<le> now + tz" "now + tz \<le> DATETIME_MAX"
  shows "timedelta_seconds w = Inr (w * 1000000)"
    and "datetime_add (now + tz) (- (w * 1000000)) = Inr (now + tz - w * 1000000)"
proof -
  have "0 div 86400 \<le> w div (86400::int)" using assms(1) by (intro zdiv_mono1) simp_all
  moreover have "w div 86400 \<le> 86399999999999 div (86400::int)"
    using assms(2) by (intro zdiv_mono1) simp_all
  ultimately have "- 999999999 \<le> w div 86400" "w div 86400 \<le> 999999999" by simp_all
  then show "timedelta_seconds w = Inr (w * 1000000)" by (simp add: timedelta_seconds_def)
  show "datetime_add (now + tz) (- (w * 1000000)) = Inr (now + tz - w * 1000000)"
    using assms by (simp add: datetime_add_def)
qed

lemma check_allowed:
  assumes "is_ip_blocked db now ip = (False, db1)"
    and "rate_limit_for cfg ep = Inr (m, w)"
    and "0 \<le> w" "w \<le> 86399999999999" "w * 1000000 \<le> now + tz" "now + tz \<le> DATETIME_MAX"
    and "get_rate_limit_count db1 ip ep (now + tz - w * 1000000) < m"
  shows "check_rate_limit cfg tz db now ip ep = (Returned True, increment_rate_limit db1 now ip ep)"
  using assms(1,2,7) window_start_ok[OF assms(3-6)]
  by (simp add: check_rate_limit_def check_rate_limit_try_def)

lemma check_exceeded:
  assumes "is_ip_blocked db now ip = (False, db1)"
    and "rate_limit_for cfg ep = Inr (m, w)"
    and "0 \<le> w" "w \<le> 86399999999999" "w * 1000000 \<le> now + tz" "now + tz \<le> DATETIME_MAX"
    and "m \<le> get_rate_limit_count db1 ip ep (now + tz - w * 1000000)"
  shows "check_rate_limit cfg tz db now ip ep =
     (HTTPRaised 429 ''Rate limit exceeded'', block_ip db1 now ip ''rate_limit_exceeded'')"
  using assms(1,2,7) window_start_ok[OF assms(3-6)]
  by (simp add: check_rate_limit_def check_rate_limit_try_def)

lemma check_blocked:
  assumes "is_ip_blocked db now ip = (True, db1)"
  shows "check_rate_limit cfg tz db now ip ep = (HTTPRaised 429 ''IP address blocked'', db1)"
  using assms by (simp add: check_rate_limit_def check_rate_limit_try_def)

lemma block_ip_new:
  assumes "available db" "\<forall>r\<in>set (ip_blocklist db). bl_ip_address r \<noteq> ip"
    "0 \<le> now" "now + 86400000000 \<le> DATETIME_MAX"
  shows "block_ip db now ip reason =
     db\<lparr>ip_blocklist := ip_blocklist db @
          [\<lparr>bl_ip_address = ip, bl_reason = reason,
            bl_blocked_until = now + 86400000000, bl_created_at = now\<rparr>]\<rparr>"
  using assms
  by (simp add: block_ip_def ip_block_duration_def timedelta_seconds_def datetime_add_def
      upsert_block_new)

lemma count_rows_append: "count_rows (xs @ ys) ip ep ws = count_rows xs ip ep ws + count_rows ys ip ep ws"
  by (simp add: count_rows_def)

lemma count_rows_old:
  "\<forall>r\<in>set rows. rl_ip_address r = ip \<and> rl_endpoint r = ep \<longrightarrow> rl_created_at r < ws \<Longrightarrow>
   count_rows rows ip ep ws = 0"
proof -
  assume a: "\<forall>r\<in>set rows. rl_ip_address r = ip \<and> rl_endpoint r = ep \<longrightarrow> rl_created_at r < ws"
  have "filter (\<lambda>r. rl_ip_address r = ip \<and> rl_endpoint r = ep \<and> ws \<le> rl_created_at r) rows = []"
    using a by (auto simp: filter_empty_conv)
  then show ?thesis by (simp add: count_rows_def)
qed

lemma count_rows_Cons:
  "count_rows (\<lparr>rl_ip_address = ip, rl_endpoint = ep, rl_count = 1, rl_created_at = t\<rparr> # rows) ip ep ws
     = (if ws \<le> t then 1 else 0) + count_rows rows ip ep ws"
  by (simp add: count_rows_def)

lemma count_rows_Nil: "count_rows [] ip ep ws = 0"
  by (simp add: count_rows_def)

lemma get_rate_limit_count_rows:
  "available db \<Longrightarrow> get_rate_limit_count db ip ep ws = count_rows (rate_limits db) ip ep ws"
  by (simp add: get_rate_limit_count_def count_rows_def)

lemma allowed_step:
  assumes up: "available db"
    and nb: "\<forall>r\<in>set (ip_blocklist db). bl_ip_address r \<noteq> ip"
    and cfg: "rate_limit_for cfg ep = Inr (5, 60)"
    and rng: "60000000 \<le> now" "now \<le> DATETIME_MAX"
    and cnt: "count_rows (rate_limits db) ip ep (now - 60000000) < 5"
  shows "check_rate_limit cfg 0 db now ip ep =
     (Returned True,
      db\<lparr>rate_limits := rate_limits db @
          [\<lparr>rl_ip_address = ip, rl_endpoint = ep, rl_count = 1, rl_created_at = now\<rparr>]\<rparr>)"
proof -
  have b: "is_ip_blocked db now ip = (False, db)" by (rule is_ip_blocked_none[OF up nb])
  have c: "get_rate_limit_count db ip ep (now + 0 - 60 * 1000000) < 5"
    using cnt by (simp add: get_rate_limit_count_rows[OF up])
  have "check_rate_limit cfg 0 db now ip ep = (Returned True, increment_rate_limit db now ip ep)"
    using rng by (intro check_allowed[OF b cfg _ _ _ _ c]) simp_all
  then show ?thesis using up by (simp add: increment_rate_limit_def)
qed

lemma exceeded_step:
  assumes up: "available db"
    and nb: "\<forall>r\<in>set (ip_blocklist db). bl_ip_address r \<noteq> ip"
    and cfg: "rate_limit_for cfg ep = Inr (5, 60)"
    and rng: "60000000 \<le> now" "now + 86400000000 \<le> DATETIME_MAX"
    and cnt: "5 \<le> count_rows (rate_limits db) ip ep (now - 60000000)"
  shows "check_rate_limit cfg 0 db now ip ep =
     (HTTPRaised 429 ''Rate limit exceeded'',
      db\<lparr>ip_blocklist := ip_blocklist db @
          [\<lparr>bl_ip_address = ip, bl_reason = ''rate_limit_exceeded'',
            bl_blocked_until = now + 86400000000, bl_created_at = now\<rparr>]\<rparr>)"
proof -
  have b: "is_ip_blocked db now ip = (False, db)" by (rule is_ip_blocked_none[OF up nb])
  have c: "5 \<le> get_rate_limit_count db ip ep (now + 0 - 60 * 1000000)"
    using cnt by (simp add: get_rate_limit_count_rows[OF up])
  have "check_rate_limit cfg 0 db now ip ep =
     (HTTPRaised 429 ''Rate limit exceeded'', block_ip db now ip ''rate_limit_exceeded'')"
    using rng by (intro check_exceeded[OF b cfg _ _ _ _ c]) simp_all
  moreover have "block_ip db now ip ''rate_limit_exceeded'' =
      db\<lparr>ip_blocklist := ip_blocklist db @
          [\<lparr>bl_ip_address = ip, bl_reason = ''rate_limit_exceeded'',
            bl_blocked_until = now + 86400000000, bl_created_at = now\<rparr>]\<rparr>"
    using rng by (intro block_ip_new[OF up nb]) simp_all
  ultimately show ?thesis by simp
qed

lemma blocked_step:
  assumes up: "available db"
    and bl: "ip_blocklist db = rows @ [b]" "\<forall>r\<in>set rows. bl_ip_address r \<noteq> ip"
      "bl_ip_address b = ip"
    and live: "now < bl_blocked_until b"
  shows "check_rate_limit cfg tz db now ip ep = (HTTPRaised 429 ''IP address blocked'', db)"
proof -
  have "filter (\<lambda>r. bl_ip_address r = ip) (ip_blocklist db) = [b]"
    using filter_block_append[OF bl(2,3)] bl(1) by simp
  then have "is_ip_blocked db now ip = (True, db)"
    using up live by (simp add: is_ip_blocked_def)
  then show ?thesis by (rule check_blocked)
qed

lemma expired_step:
  assumes up: "available db"
    and bl: "ip_blocklist db = rows @ [b]" "\<forall>r\<in>set rows. bl_ip_address r \<noteq> ip"
      "bl_ip_address b = ip"
    and dead: "bl_blocked_until b \<le> now"
    and cfg: "rate_limit_for cfg ep = Inr (5, 60)"
    and rng: "60000000 \<le> now" "now \<le> DATETIME_MAX"
    and cnt: "count_rows (rate_limits db) ip ep (now - 60000000) < 5"
  shows "check_rate_limit cfg 0 db now ip ep =
     (Returned True,
      db\<lparr>ip_blocklist := rows, rate_limits := rate_limits db @
          [\<lparr>rl_ip_address = ip, rl_endpoint = ep, rl_count = 1, rl_created_at = now\<rparr>]\<rparr>)"
proof -
  let ?db1 = "db\<lparr>ip_blocklist := rows\<rparr>"
  have f: "filter (\<lambda>r. bl_ip_address r = ip) (ip_blocklist db) = [b]"
    "filter (\<lambda>r. bl_ip_address r \<noteq> ip) (ip_blocklist db) = rows"
    using filter_block_append[OF bl(2,3)] bl(1) by simp_all
  have b: "is_ip_blocked db now ip = (False, ?db1)"
    using up dead f by (simp add: is_ip_blocked_def)
  have up1: "available ?db1" using up by simp
  have c: "get_rate_limit_count ?db1 ip ep (now + 0 - 60 * 1000000) < 5"
    using cnt by (simp add: get_rate_limit_count_rows[OF up1])
  have "check_rate_limit cfg 0 db now ip ep = (Returned True, increment_rate_limit ?db1 now ip ep)"
    using rng by (intro check_allowed[OF b cfg _ _ _ _ c]) simp_all
  then show ?thesis using up by (simp add: increment_rate_limit_def)
qed

section \<open>Load balancer: the claims\<close>

text \<open>
  Claim C2 says that \<^verbatim>\<open>register_service\<close> with an empty instance list is rejected or
  does nothing. The method has no such check. At the input below a service registered
  with one instance is registered again with none: the earlier registration is replaced
  by one with zero instances.
\<close>

theorem register_empty_replaces_counterexample:
  "services (register_service lb_init ''svc'' [''http://a''] ''round_robin'') ''svc'' =
     Some \<lparr>instances = [''http://a''], algorithm = ''round_robin'', current_index = 0,
           health_status = [(''http://a'', True)]\<rparr>
   \<and> services (register_service
         (register_service lb_init ''svc'' [''http://a''] ''round_robin'')
         ''svc'' [] ''round_robin'') ''svc'' =
     Some \<lparr>instances = [], algorithm = ''round_robin'', current_index = 0, health_status = []\<rparr>"
  by (simp add: register_service_def lb_init_def dict_comp_def)

text \<open>
  Claim C2 as amended: \<^verbatim>\<open>register_service\<close> accepts an empty instance list. It
  installs, under the given name and in place of whatever was registered there, a
  registration with no instances, cursor 0, an empty health table and an empty
  connection table; \<^verbatim>\<open>get_next_instance\<close> on that name then returns \<^verbatim>\<open>None\<close> and
  leaves the balancer as it is.
\<close>

theorem register_empty_installs:
  "services (register_service lb n [] alg) n =
     Some \<lparr>instances = [], algorithm = alg, current_index = 0, health_status = []\<rparr>
   \<and> active_connections (register_service lb n [] alg) n = Some []
   \<and> get_next_instance (register_service lb n [] alg) n =
       Inr (None, register_service lb n [] alg)"
  by (simp add: register_service_def dict_comp_def get_next_instance_def)

text \<open>
  Claim C3 says that an instance is marked healthy exactly when its probe answered with
  a 2xx status. The method compares the status with 200: at the input below the probe
  answers 204 and the instance is marked unhealthy.
\<close>

theorem health_check_2xx_counterexample:
  "map_option (\<lambda>svc. map_of (health_status svc) ''http://a'')
     (services (health_check (\<lambda>i. Status 204)
        (register_service lb_init ''svc'' [''http://a''] ''round_robin'') ''svc'') ''svc'')
   = Some (Some False)"
  by (simp add: health_check_def register_service_def lb_init_def dict_comp_def probe_healthy_def)

text \<open>
  Claim C3 as amended: for a registered service and every assignment of probe outcomes
  to instance addresses, after \<^verbatim>\<open>health_check(name)\<close> the health status of each of its
  instances is true if and only if that instance's probe answered with status 200. A
  probe that raises marks its own instance unhealthy; every instance is marked by its
  own outcome alone, the instance list is unchanged, and entries of the health table
  for addresses that are not instances are untouched.
\<close>

theorem health_check_marks_each_instance:
  assumes "services lb n = Some svc"
  shows "\<exists>svc'. services (health_check probe lb n) n = Some svc'
     \<and> instances svc' = instances svc
     \<and> (\<forall>i\<in>set (instances svc).
           map_of (health_status svc') i = Some (probe i = Status 200))
     \<and> (\<forall>i. i \<notin> set (instances svc) \<longrightarrow>
           map_of (health_status svc') i = map_of (health_status svc) i)"
proof -
  have "probe_healthy r = (r = Status 200)" for r
    by (cases r) (simp_all add: probe_healthy_def)
  then show ?thesis using assms
    by (simp add: health_check_def map_of_health_loop)
qed

theorem health_check_marks_each_instance_witness:
  "map_option (\<lambda>svc. map (map_of (health_status svc)) [''A'', ''B'', ''C''])
     (services (health_check
        (\<lambda>i. if i = ''B'' then ProbeRaises (BackendError ''connect'') else Status 200)
        (register_service lb_init ''svc'' [''A'', ''B'', ''C''] ''round_robin'') ''svc'') ''svc'')
   = Some [Some True, Some False, Some True]"
  using health_check_marks_each_instance
    [of "register_service lb_init ''svc'' [''A'', ''B'', ''C''] ''round_robin''" "''svc''"
        "\<lparr>instances = [''A'', ''B'', ''C''], algorithm = ''round_robin'', current_index = 0,
          health_status = dict_comp [''A'', ''B'', ''C''] True\<rparr>"
        "\<lambda>i. if i = ''B'' then ProbeRaises (BackendError ''connect'') else Status 200"]
  by (auto simp: register_service_def)

text \<open>
  Claim C6: after \<^verbatim>\<open>register_service(name, [A, B, C], "round_robin")\<close>, whatever the
  balancer held before, four successive \<^verbatim>\<open>get_next_instance(name)\<close> calls return
  \<open>A, B, C, A\<close>. In general, in every state that a sequence of operations reaches, a
  call for a round-robin service with instances returns \<^verbatim>\<open>instances[cursor]\<close> and
  leaves the cursor at \<^verbatim>\<open>(cursor + 1) % len(instances)\<close>.
\<close>

theorem round_robin_order:
  "(\<exists>lb'. call_get_next (register_service lb0 n [A, B, C] ''round_robin'') n 4
            = Inr ([Some A, Some B, Some C, Some A], lb'))
   \<and> (\<forall>ops lb svc. lb_run lb_init ops = Inr lb \<longrightarrow> services lb n = Some svc \<longrightarrow>
          algorithm svc = ''round_robin'' \<longrightarrow> instances svc \<noteq> [] \<longrightarrow>
          (\<exists>inst lb'. py_index (instances svc) (current_index svc) = Inr inst
             \<and> get_next_instance lb n = Inr (Some inst, lb')
             \<and> services lb' n = Some (svc\<lparr>current_index :=
                   (current_index svc + 1) mod int (length (instances svc))\<rparr>)))"
proof (intro conjI allI impI)
  show "\<exists>lb'. call_get_next (register_service lb0 n [A, B, C] ''round_robin'') n 4
            = Inr ([Some A, Some B, Some C, Some A], lb')"
    by (rule round_robin_abca)
next
  fix ops lb svc
  assume run: "lb_run lb_init ops = Inr lb" and svc: "services lb n = Some svc"
    and alg: "algorithm svc = ''round_robin''" and ne: "instances svc \<noteq> []"
  from reachable_inv[OF run] svc obtain conns where
    conns: "active_connections lb n = Some conns" and ok: "conns_ok svc conns"
    unfolding lb_inv_def by blast
  from round_robin_step[OF svc ne alg conns ok]
  show "\<exists>inst lb'. py_index (instances svc) (current_index svc) = Inr inst
             \<and> get_next_instance lb n = Inr (Some inst, lb')
             \<and> services lb' n = Some (svc\<lparr>current_index :=
                   (current_index svc + 1) mod int (length (instances svc))\<rparr>)"
    by blast
qed

theorem round_robin_order_witness:
  "lb_run lb_init [Register ''svc'' [''A'', ''B''] ''round_robin'', GetNext ''svc'']
     = Inr \<lparr>services = [''svc'' \<mapsto> \<lparr>instances = [''A'', ''B''], algorithm = ''round_robin'',
                                   current_index = 1,
                                   health_status = [(''A'', True), (''B'', True)]\<rparr>],
            active_connections = [''svc'' \<mapsto> [(''A'', 1), (''B'', 0)]]\<rparr>
   \<and> map_sum id fst (get_next_instance
        \<lparr>services = [''svc'' \<mapsto> \<lparr>instances = [''A'', ''B''], algorithm = ''round_robin'',
                                   current_index = 1,
                                   health_status = [(''A'', True), (''B'', True)]\<rparr>],
            active_connections = [''svc'' \<mapsto> [(''A'', 1), (''B'', 0)]]\<rparr> ''svc'') = Inr (Some ''B'')"
proof -
  let ?svc = "\<lparr>instances = [''A'', ''B''], algorithm = ''round_robin'', current_index = 1,
               health_status = [(''A'', True), (''B'', True)]\<rparr>"
  let ?lb = "\<lparr>services = [''svc'' \<mapsto> ?svc],
            active_connections = [''svc'' \<mapsto> [(''A'', 1), (''B'', 0)]]\<rparr>"
  have run: "lb_run lb_init [Register ''svc'' [''A'', ''B''] ''round_robin'', GetNext ''svc''] = Inr ?lb"
    by (simp add: register_service_def lb_init_def dict_comp_def get_next_instance_def
        py_index_def incr_connection_def dict_incr_def)
  have svc: "services ?lb ''svc'' = Some ?svc" by simp
  have alg: "algorithm ?svc = ''round_robin''" by simp
  have ne: "instances ?svc \<noteq> []" by simp
  from round_robin_order[of lb_init "''svc''" "''A''" "''B''" "''C''"] run svc alg ne
  obtain inst lb' where "py_index (instances ?svc) (current_index ?svc) = Inr inst"
    "get_next_instance ?lb ''svc'' = Inr (Some inst, lb')"
    by blast
  then show ?thesis using run by (simp add: py_index_def)
qed

text \<open>
  Claim C7: in every reachable state, \<^verbatim>\<open>get_next_instance\<close> on a least-connections
  service with instances returns the first instance, in the iteration order of the
  connection table, whose count is minimal, and adds one to that count, changing nothing
  else. For two distinct instances \<open>A\<close> and \<open>B\<close> the first three calls select
  \<open>A, B, A\<close> (A twice, B once), the fourth selects \<open>B\<close>, the one with the lower
  count; after one connection of \<open>A\<close> is released the counts are 1 and 2 and the
  next call selects \<open>A\<close>.
\<close>

theorem least_connections_selection:
  "(\<forall>ops lb svc. lb_run lb_init ops = Inr lb \<longrightarrow> services lb n = Some svc \<longrightarrow>
        algorithm svc = ''least_connections'' \<longrightarrow> instances svc \<noteq> [] \<longrightarrow>
        (\<exists>conns m lb'. active_connections lb n = Some conns \<and> first_minimum conns m
           \<and> get_next_instance lb n = Inr (Some (fst m), lb')
           \<and> active_connections lb' =
               (active_connections lb)(n \<mapsto> AList.update (fst m) (snd m + 1) conns)
           \<and> services lb' = services lb))
   \<and> (A \<noteq> B \<longrightarrow>
        (\<exists>lb4. call_get_next (register_service lb0 n [A, B] ''least_connections'') n 4
               = Inr ([Some A, Some B, Some A, Some B], lb4)
          \<and> active_connections lb4 n = Some [(A, 2), (B, 2)]
          \<and> active_connections (release_instance lb4 n A) n = Some [(A, 1), (B, 2)]
          \<and> map_sum id fst (get_next_instance (release_instance lb4 n A) n) = Inr (Some A)))"
proof (intro conjI allI impI)
  fix ops lb svc
  assume run: "lb_run lb_init ops = Inr lb" and svc: "services lb n = Some svc"
    and alg: "algorithm svc = ''least_connections''" and ne: "instances svc \<noteq> []"
  from reachable_inv[OF run] svc obtain conns where
    conns: "active_connections lb n = Some conns" and ok: "conns_ok svc conns"
    unfolding lb_inv_def by blast
  from get_next_least_connections[OF svc ne alg conns ok] obtain m where
    fm: "first_minimum conns m"
    and g: "get_next_instance lb n = Inr (Some (fst m),
        lb\<lparr>active_connections := (active_connections lb)(n \<mapsto>
                   AList.update (fst m) (snd m + 1) conns)\<rparr>)"
    by blast
  let ?lb' = "lb\<lparr>active_connections := (active_connections lb)(n \<mapsto>
                   AList.update (fst m) (snd m + 1) conns)\<rparr>"
  have "active_connections lb n = Some conns \<and> first_minimum conns m
           \<and> get_next_instance lb n = Inr (Some (fst m), ?lb')
           \<and> active_connections ?lb' =
               (active_connections lb)(n \<mapsto> AList.update (fst m) (snd m + 1) conns)
           \<and> services ?lb' = services lb"
    using conns fm g by simp
  then have "\<exists>lb'. active_connections lb n = Some conns \<and> first_minimum conns m
           \<and> get_next_instance lb n = Inr (Some (fst m), lb')
           \<and> active_connections lb' =
               (active_connections lb)(n \<mapsto> AList.update (fst m) (snd m + 1) conns)
           \<and> services lb' = services lb"
    by (rule exI)
  then have "\<exists>m lb'. active_connections lb n = Some conns \<and> first_minimum conns m
           \<and> get_next_instance lb n = Inr (Some (fst m), lb')
           \<and> active_connections lb' =
               (active_connections lb)(n \<mapsto> AList.update (fst m) (snd m + 1) conns)
           \<and> services lb' = services lb"
    by (rule exI)
  then show "\<exists>conns m lb'. active_connections lb n = Some conns \<and> first_minimum conns m
           \<and> get_next_instance lb n = Inr (Some (fst m), lb')
           \<and> active_connections lb' =
               (active_connections lb)(n \<mapsto> AList.update (fst m) (snd m + 1) conns)
           \<and> services lb' = services lb"
    by (rule exI)
next
  assume "A \<noteq> B"
  then show "\<exists>lb4. call_get_next (register_service lb0 n [A, B] ''least_connections'') n 4
               = Inr ([Some A, Some B, Some A, Some B], lb4)
          \<and> active_connections lb4 n = Some [(A, 2), (B, 2)]
          \<and> active_connections (release_instance lb4 n A) n = Some [(A, 1), (B, 2)]
          \<and> map_sum id fst (get_next_instance (release_instance lb4 n A) n) = Inr (Some A)"
    by (rule least_connections_scenario)
qed

theorem least_connections_selection_witness:
  "map_sum id fst (call_get_next
      (register_service lb_init ''svc'' [''A'', ''B''] ''least_connections'') ''svc'' 4)
     = Inr [Some ''A'', Some ''B'', Some ''A'', Some ''B'']
   \<and> lb_run lb_init [Register ''svc'' [''A'', ''B'', ''C''] ''least_connections'',
        GetNext ''svc'', GetNext ''svc'', Release ''svc'' ''A'']
     = Inr \<lparr>services = [''svc'' \<mapsto> \<lparr>instances = [''A'', ''B'', ''C''],
                algorithm = ''least_connections'', current_index = 0,
                health_status = [(''A'', True), (''B'', True), (''C'', True)]\<rparr>],
            active_connections = [''svc'' \<mapsto> [(''A'', 0), (''B'', 1), (''C'', 0)]]\<rparr>
   \<and> first_minimum [(''A'', 0), (''B'', 1), (''C'', 0)] (''A'', 0::int)
   \<and> map_sum id fst (get_next_instance
        \<lparr>services = [''svc'' \<mapsto> \<lparr>instances = [''A'', ''B'', ''C''],
                algorithm = ''least_connections'', current_index = 0,
                health_status = [(''A'', True), (''B'', True), (''C'', True)]\<rparr>],
            active_connections = [''svc'' \<mapsto> [(''A'', 0), (''B'', 1), (''C'', 0)]]\<rparr> ''svc'')
     = Inr (Some ''A'')"
proof -
  let ?svc = "\<lparr>instances = [''A'', ''B'', ''C''],
                algorithm = ''least_connections'', current_index = 0,
                health_status = [(''A'', True), (''B'', True), (''C'', True)]\<rparr>"
  let ?lb = "\<lparr>services = [''svc'' \<mapsto> ?svc],
            active_connections = [''svc'' \<mapsto> [(''A'', 0), (''B'', 1), (''C'', 0::int)]]\<rparr>"
  have ab: "''A'' \<noteq> ''B''" by simp
  have run: "lb_run lb_init [Register ''svc'' [''A'', ''B'', ''C''] ''least_connections'',
        GetNext ''svc'', GetNext ''svc'', Release ''svc'' ''A''] = Inr ?lb"
    by (simp add: register_service_def lb_init_def dict_comp_def get_next_instance_def
        py_min_key_def incr_connection_def dict_incr_def release_instance_def)
  have svc: "services ?lb ''svc'' = Some ?svc" by simp
  have alg: "algorithm ?svc = ''least_connections''" by simp
  have ne: "instances ?svc \<noteq> []" by simp
  note sel = least_connections_selection[of "''svc''" "''A''" "''B''" lb_init]
  note gen = sel[THEN conjunct1, rule_format, OF run svc alg ne]
  note scen = sel[THEN conjunct2, rule_format, OF ab]
  from scen obtain lb4 where
    sc: "call_get_next (register_service lb_init ''svc'' [''A'', ''B''] ''least_connections'') ''svc'' 4
               = Inr ([Some ''A'', Some ''B'', Some ''A'', Some ''B''], lb4)"
    by blast
  from gen obtain m lb' where
    m: "first_minimum [(''A'', 0), (''B'', 1), (''C'', 0::int)] m"
    and g: "get_next_instance ?lb ''svc'' = Inr (Some (fst m), lb')"
    by auto
  have "m = (''A'', 0)" using m by (auto simp: first_minimum_def)
  then show ?thesis using sc run m g by simp
qed

text \<open>
  Claim C9 says that the cursor of every registered service satisfies
  \<^verbatim>\<open>0 <= cursor < len(instances)\<close>. A service may be registered with no instances
  (see C2); its cursor is 0 and its instance list has length 0.
\<close>

theorem cursor_range_counterexample:
  "lb_run lb_init [Register ''svc'' [] ''round_robin'']
     = Inr \<lparr>services = [''svc'' \<mapsto> \<lparr>instances = [], algorithm = ''round_robin'',
                                   current_index = 0, health_status = []\<rparr>],
            active_connections = [''svc'' \<mapsto> []]\<rparr>
   \<and> \<not> current_index \<lparr>instances = [], algorithm = ''round_robin'',
                         current_index = 0, health_status = []\<rparr>
       < int (length (instances \<lparr>instances = [], algorithm = ''round_robin'',
                         current_index = 0, health_status = []\<rparr>))"
  by (simp add: register_service_def lb_init_def dict_comp_def)

text \<open>
  Claim C9 as amended: every sequence of \<^verbatim>\<open>register_service\<close>,
  \<^verbatim>\<open>get_next_instance\<close> and \<^verbatim>\<open>release_instance\<close> calls on a fresh balancer runs
  without an exception, and afterwards every registered service has a connection table
  over exactly its instances with non-negative counts, and a cursor with
  \<^verbatim>\<open>0 <= cursor\<close> that is below \<^verbatim>\<open>len(instances)\<close> when the service has instances and is
  0 when it has none. \<^verbatim>\<open>release_instance\<close> does nothing for an unknown service or
  instance and otherwise stores \<^verbatim>\<open>max(0, count - 1)\<close>.
\<close>

theorem counts_nonnegative_cursor_in_range:
  "\<exists>lb. lb_run lb_init ops = Inr lb
     \<and> (\<forall>n svc. services lb n = Some svc \<longrightarrow>
          (\<exists>conns. active_connections lb n = Some conns
             \<and> fst ` set conns = set (instances svc)
             \<and> (\<forall>p\<in>set conns. 0 \<le> snd p)
             \<and> 0 \<le> current_index svc
             \<and> (if instances svc = [] then current_index svc = 0
                 else current_index svc < int (length (instances svc)))))
     \<and> (\<forall>n i. (active_connections lb n = None \<longrightarrow> release_instance lb n i = lb)
          \<and> (\<forall>conns. active_connections lb n = Some conns \<longrightarrow> map_of conns i = None \<longrightarrow>
                release_instance lb n i = lb)
          \<and> (\<forall>conns c. active_connections lb n = Some conns \<longrightarrow> map_of conns i = Some c \<longrightarrow>
                release_instance lb n i =
                  lb\<lparr>active_connections :=
                       (active_connections lb)(n \<mapsto> AList.update i (max 0 (c - 1)) conns)\<rparr>))"
proof -
  from lb_run_inv[OF lb_inv_init, of ops] obtain lb where
    run: "lb_run lb_init ops = Inr lb" and inv: "lb_inv lb" by blast
  have "\<forall>n svc. services lb n = Some svc \<longrightarrow>
          (\<exists>conns. active_connections lb n = Some conns
             \<and> fst ` set conns = set (instances svc)
             \<and> (\<forall>p\<in>set conns. 0 \<le> snd p)
             \<and> 0 \<le> current_index svc
             \<and> (if instances svc = [] then current_index svc = 0
                 else current_index svc < int (length (instances svc))))"
  proof (intro allI impI)
    fix n svc assume "services lb n = Some svc"
    then obtain conns where "active_connections lb n = Some conns" "conns_ok svc conns"
      using inv unfolding lb_inv_def by blast
    then have "active_connections lb n = Some conns
             \<and> fst ` set conns = set (instances svc)
             \<and> (\<forall>p\<in>set conns. 0 \<le> snd p)
             \<and> 0 \<le> current_index svc
             \<and> (if instances svc = [] then current_index svc = 0
                 else current_index svc < int (length (instances svc)))"
      unfolding conns_ok_def by simp
    then show "\<exists>conns. active_connections lb n = Some conns
             \<and> fst ` set conns = set (instances svc)
             \<and> (\<forall>p\<in>set conns. 0 \<le> snd p)
             \<and> 0 \<le> current_index svc
             \<and> (if instances svc = [] then current_index svc = 0
                 else current_index svc < int (length (instances svc)))"
      by (rule exI)
  qed
  moreover have "\<forall>n i. (active_connections lb n = None \<longrightarrow> release_instance lb n i = lb)
          \<and> (\<forall>conns. active_connections lb n = Some conns \<longrightarrow> map_of conns i = None \<longrightarrow>
                release_instance lb n i = lb)
          \<and> (\<forall>conns c. active_connections lb n = Some conns \<longrightarrow> map_of conns i = Some c \<longrightarrow>
                release_instance lb n i =
                  lb\<lparr>active_connections :=
                       (active_connections lb)(n \<mapsto> AList.update i (max 0 (c - 1)) conns)\<rparr>)"
    using release_cases by (intro allI)
  ultimately show ?thesis using run by (intro exI[of _ lb] conjI)
qed

theorem counts_nonnegative_cursor_in_range_witness:
  "lb_run lb_init [Register ''svc'' [''A'', ''B''] ''round_robin'', GetNext ''svc'',
       Release ''svc'' ''A'', Release ''svc'' ''A'', Release ''other'' ''A'']
     = Inr \<lparr>services = [''svc'' \<mapsto> \<lparr>instances = [''A'', ''B''], algorithm = ''round_robin'',
                                   current_index = 1,
                                   health_status = [(''A'', True), (''B'', True)]\<rparr>],
            active_connections = [''svc'' \<mapsto> [(''A'', 0), (''B'', 0)]]\<rparr>
   \<and> release_instance \<lparr>services = [''svc'' \<mapsto> \<lparr>instances = [''A'', ''B''], algorithm = ''round_robin'',
                                   current_index = 1,
                                   health_status = [(''A'', True), (''B'', True)]\<rparr>],
            active_connections = [''svc'' \<mapsto> [(''A'', 0), (''B'', 0)]]\<rparr> ''other'' ''A''
     = \<lparr>services = [''svc'' \<mapsto> \<lparr>instances = [''A'', ''B''], algorithm = ''round_robin'',
                                   current_index = 1,
                                   health_status = [(''A'', True), (''B'', True)]\<rparr>],
            active_connections = [''svc'' \<mapsto> [(''A'', 0), (''B'', 0)]]\<rparr>"
proof -
  let ?ops = "[Register ''svc'' [''A'', ''B''] ''round_robin'', GetNext ''svc'',
       Release ''svc'' ''A'', Release ''svc'' ''A'', Release ''other'' ''A'']"
  let ?lb = "\<lparr>services = [''svc'' \<mapsto> \<lparr>instances = [''A'', ''B''], algorithm = ''round_robin'',
                                   current_index = 1,
                                   health_status = [(''A'', True), (''B'', True)]\<rparr>],
            active_connections = [''svc'' \<mapsto> [(''A'', 0), (''B'', 0::int)]]\<rparr>"
  have run: "lb_run lb_init ?ops = Inr ?lb"
    by (simp add: register_service_def lb_init_def dict_comp_def get_next_instance_def
        py_index_def incr_connection_def dict_incr_def release_instance_def)
  have none: "active_connections ?lb ''other'' = None" by simp
  from counts_nonnegative_cursor_in_range[of ?ops]
  have "release_instance ?lb ''other'' ''A'' = ?lb"
    unfolding run using none by (elim exE conjE) (simp only: sum.inject)
  with run show ?thesis by (intro conjI)
qed

section \<open>Cache manager: the claims\<close>

text \<open>
  Claim C4: \<^verbatim>\<open>get\<close> never lets an exception reach its caller. Whatever the store
  answers, the result is a value (\<open>Inr\<close>); a key missing from the in-process store, a
  key for which the IronCache client returns no item, and a lookup on which the client
  raises are all reported absent (\<^verbatim>\<open>None\<close>). The exceptions meant are those that
  \<^verbatim>\<open>except Exception\<close> catches.
\<close>

theorem get_never_raises:
  "(\<exists>r. get env cm now key = Inr r)
   \<and> (\<not> (iron_available cm \<and> client_present cm) \<and> memory_cache cm key = None
        \<longrightarrow> get env cm now key = Inr None)
   \<and> (iron_available cm \<and> client_present cm \<and> ic_get env key = Returns None
        \<longrightarrow> get env cm now key = Inr None)
   \<and> (iron_available cm \<and> client_present cm \<and> (\<exists>e. ic_get env key = Raises e)
        \<longrightarrow> get env cm now key = Inr None)"
  by (auto simp: get_def get_try_def split: sum.splits)

theorem get_never_raises_witness:
  "get (iron_down :: nat iron_env)
     \<lparr>iron_available = True, client_present = True, memory_cache = Map.empty, key_registry = []\<rparr>
     0 ''k'' = Inr None
   \<and> get (iron_down :: nat iron_env) cache_init 0 ''k'' = Inr None"
proof -
  let ?cm = "\<lparr>iron_available = True, client_present = True,
              memory_cache = (Map.empty :: string \<rightharpoonup> nat cache_entry), key_registry = []\<rparr>"
  have a: "iron_available ?cm \<and> client_present ?cm
           \<and> (\<exists>e. ic_get (iron_down :: nat iron_env) ''k'' = Raises e)"
    by (simp add: iron_down_def)
  have b: "\<not> (iron_available (cache_init :: nat cache_manager) \<and> client_present (cache_init :: nat cache_manager))
           \<and> memory_cache (cache_init :: nat cache_manager) ''k'' = None"
    by (simp add: cache_init_def)
  have 1: "get (iron_down :: nat iron_env) ?cm 0 ''k'' = Inr None"
    by (rule get_never_raises[of "iron_down :: nat iron_env" ?cm 0 "''k''",
          THEN conjunct2, THEN conjunct2, THEN conjunct2, THEN mp, OF a])
  have 2: "get (iron_down :: nat iron_env) cache_init 0 ''k'' = Inr None"
    by (rule get_never_raises[of "iron_down :: nat iron_env" "cache_init :: nat cache_manager" 0 "''k''",
          THEN conjunct2, THEN conjunct1, THEN mp, OF b])
  from 1 2 show ?thesis by (intro conjI)
qed

text \<open>
  Claim C5 says that for every \<open>ttl > 0\<close> a \<^verbatim>\<open>get\<close> right after \<^verbatim>\<open>set\<close> returns the
  stored value. With the in-process store \<^verbatim>\<open>set\<close> computes
  \<^verbatim>\<open>datetime.utcnow() + timedelta(seconds=ttl)\<close>; for \<open>ttl = 10\<^sup>1\<^sup>2\<close> seconds that
  sum lies after \<^verbatim>\<open>datetime.max\<close>, Python raises OverflowError, the \<^verbatim>\<open>except\<close> clause
  of \<^verbatim>\<open>set\<close> swallows it, nothing is stored, and the \<^verbatim>\<open>get\<close> that follows reports the
  key absent. The clock below reads 2026-01-01T00:00:00.
\<close>

theorem cache_ttl_overflow_counterexample:
  "set_cache (iron_down :: nat iron_env) cache_init 63902822400000000 ''k'' 7 1000000000000
     = Inr cache_init
   \<and> get (iron_down :: nat iron_env) cache_init 63902822400000000 ''k'' = Inr None"
  by (simp add: set_cache_def set_try_def cache_init_def timedelta_seconds_def datetime_add_def
      DATETIME_MAX_def get_def get_try_def)

text \<open>
  Claim C5 as amended: with the in-process store, for every key, value and \<open>ttl > 0\<close>
  for which the expiry \<open>now + ttl\<close> seconds is still a \<^verbatim>\<open>datetime\<close> (at most
  9999-12-31T23:59:59.999999), \<^verbatim>\<open>get(key)\<close> returns the stored value right after
  \<^verbatim>\<open>set(key, value, ttl)\<close> and at every clock reading before the expiry, and reports
  the key absent once the clock has reached or passed \<open>ttl\<close> seconds after the
  \<^verbatim>\<open>set\<close>. Times are in microseconds.
\<close>

theorem cache_ttl:
  assumes "\<not> iron_available cm" "0 < ttl" "0 \<le> now" "now + ttl * 1000000 \<le> DATETIME_MAX"
  shows "\<exists>cm'. set_cache env cm now key v ttl = Inr cm'
     \<and> get env cm' now key = Inr (Some v)
     \<and> (\<forall>t. now \<le> t \<and> t < now + ttl * 1000000 \<longrightarrow> get env cm' t key = Inr (Some v))
     \<and> (\<forall>t. now + ttl * 1000000 \<le> t \<longrightarrow> get env cm' t key = Inr None)"
proof -
  let ?cm' = "cm\<lparr>memory_cache := (memory_cache cm)(key \<mapsto>
                \<lparr>entry_value = v, expires_at = now + ttl * 1000000\<rparr>),
             key_registry := set_add key (key_registry cm)\<rparr>"
  have s: "set_cache env cm now key v ttl = Inr ?cm'" by (rule set_cache_memory[OF assms])
  have m: "\<not> iron_available ?cm'" using assms(1) by simp
  have "get env ?cm' now key = Inr (Some v)"
    using assms(2) by (simp add: get_memory[OF m])
  moreover have "\<forall>t. now \<le> t \<and> t < now + ttl * 1000000 \<longrightarrow> get env ?cm' t key = Inr (Some v)"
    by (simp add: get_memory[OF m])
  moreover have "\<forall>t. now + ttl * 1000000 \<le> t \<longrightarrow> get env ?cm' t key = Inr None"
    by (simp add: get_memory[OF m])
  ultimately show ?thesis using s by (intro exI[of _ ?cm'] conjI)
qed

theorem cache_ttl_witness:
  "set_cache (iron_down :: nat iron_env) cache_init 63902822400000000 ''k'' 7 10
     = Inr \<lparr>iron_available = False, client_present = False,
            memory_cache = [''k'' \<mapsto> \<lparr>entry_value = 7, expires_at = 63902822410000000\<rparr>],
            key_registry = [''k'']\<rparr>
   \<and> get (iron_down :: nat iron_env)
        \<lparr>iron_available = False, client_present = False,
            memory_cache = [''k'' \<mapsto> \<lparr>entry_value = 7, expires_at = 63902822410000000\<rparr>],
            key_registry = [''k'']\<rparr> 63902822400000000 ''k'' = Inr (Some 7)
   \<and> get (iron_down :: nat iron_env)
        \<lparr>iron_available = False, client_present = False,
            memory_cache = [''k'' \<mapsto> \<lparr>entry_value = 7, expires_at = 63902822410000000\<rparr>],
            key_registry = [''k'']\<rparr> 63902822410000001 ''k'' = Inr None"
proof -
  let ?cm' = "\<lparr>iron_available = False, client_present = False,
            memory_cache = [''k'' \<mapsto> \<lparr>entry_value = 7::nat, expires_at = 63902822410000000\<rparr>],
            key_registry = [''k'']\<rparr>"
  have h1: "\<not> iron_available (cache_init :: nat cache_manager)" by (simp add: cache_init_def)
  have h2: "(0::int) < 10" by simp
  have h3: "(0::int) \<le> 63902822400000000" by simp
  have h4: "(63902822400000000::int) + 10 * 1000000 \<le> DATETIME_MAX" by (simp add: DATETIME_MAX_def)
  have s: "set_cache (iron_down :: nat iron_env) cache_init 63902822400000000 ''k'' 7 10 = Inr ?cm'"
    by (simp add: set_cache_def set_try_def cache_init_def timedelta_seconds_def datetime_add_def
      DATETIME_MAX_def set_add_def)
  from cache_ttl[OF h1 h2 h3 h4, of "iron_down :: nat iron_env" "''k''" 7]
  obtain cm' where
    all: "set_cache (iron_down :: nat iron_env) cache_init 63902822400000000 ''k'' 7 10 = Inr cm'
     \<and> get iron_down cm' 63902822400000000 ''k'' = Inr (Some 7)
     \<and> (\<forall>t. 63902822400000000 \<le> t \<and> t < 63902822400000000 + 10 * 1000000 \<longrightarrow>
            get iron_down cm' t ''k'' = Inr (Some 7))
     \<and> (\<forall>t. 63902822400000000 + 10 * 1000000 \<le> t \<longrightarrow> get iron_down cm' t ''k'' = Inr None)"
    by (rule exE)
  have eq: "cm' = ?cm'" using all[THEN conjunct1] s by simp
  have g1: "get iron_down ?cm' 63902822400000000 ''k'' = Inr (Some 7)"
    using all[THEN conjunct2, THEN conjunct1] unfolding eq .
  have "(63902822400000000::int) + 10 * 1000000 \<le> 63902822410000001" by simp
  then have g2: "get iron_down ?cm' 63902822410000001 ''k'' = Inr None"
    using all[THEN conjunct2, THEN conjunct2, THEN conjunct2, THEN spec, THEN mp] unfolding eq
    by blast
  from s g1 g2 show ?thesis by (intro conjI)
qed




text \<open>
  Claim C10 says that after \<^verbatim>\<open>set(key, v, ttl)\<close> and \<^verbatim>\<open>delete(key)\<close> the key is still
  listed by \<^verbatim>\<open>list_keys()\<close>. A \<^verbatim>\<open>set\<close> whose body raises registers nothing. With the
  in-process store and \<open>ttl = 10\<^sup>1\<^sup>2\<close> the expiry overflows (see C5); with IronCache
  configured and a client that raises, \<^verbatim>\<open>client.put\<close> raises before
  \<^verbatim>\<open>key_registry.add\<close>. In both cases, on a manager with an empty registry, the key is
  not listed after \<^verbatim>\<open>set\<close> and \<^verbatim>\<open>delete\<close>.
\<close>

theorem delete_unregistered_counterexample:
  "set_cache (iron_down :: nat iron_env) cache_init 63902822400000000 ''k'' 7 1000000000000
     = Inr cache_init
   \<and> delete (iron_down :: nat iron_env) cache_init ''k'' = Inr cache_init
   \<and> list_keys (iron_down :: nat iron_env) cache_init = Inr []
   \<and> set_cache (iron_down :: nat iron_env)
       \<lparr>iron_available = True, client_present = True, memory_cache = Map.empty,
        key_registry = []\<rparr> 63902822400000000 ''k'' 7 3600
     = Inr \<lparr>iron_available = True, client_present = True, memory_cache = Map.empty,
            key_registry = []\<rparr>
   \<and> delete (iron_down :: nat iron_env)
       \<lparr>iron_available = True, client_present = True, memory_cache = Map.empty,
        key_registry = []\<rparr> ''k''
     = Inr \<lparr>iron_available = True, client_present = True, memory_cache = Map.empty,
            key_registry = []\<rparr>
   \<and> list_keys (iron_down :: nat iron_env)
       \<lparr>iron_available = True, client_present = True, memory_cache = Map.empty,
        key_registry = []\<rparr> = Inr []"
  by (simp add: set_cache_def set_try_def cache_init_def timedelta_seconds_def datetime_add_def
      DATETIME_MAX_def delete_def list_keys_def iron_down_def)

text \<open>
  Claim C10 as amended: \<^verbatim>\<open>delete(key)\<close> never changes the key registry, with either
  store. With the in-process store, \<^verbatim>\<open>delete(key)\<close> removes the entry (a subsequent
  \<^verbatim>\<open>get(key)\<close> reports absent) and \<^verbatim>\<open>list_keys()\<close> is the registry as before; after a
  \<^verbatim>\<open>set(key, v, ttl)\<close> whose expiry is representable (\<^verbatim>\<open>timedelta(seconds=ttl)\<close> and
  \<open>now + ttl\<close> in range) followed by \<^verbatim>\<open>delete(key)\<close>, \<^verbatim>\<open>list_keys()\<close> still contains
  the key. With IronCache configured, after a \<^verbatim>\<open>set(key, v, ttl)\<close> whose
  \<^verbatim>\<open>json.dumps\<close> and \<^verbatim>\<open>client.put\<close> succeed followed by \<^verbatim>\<open>delete(key)\<close>,
  \<^verbatim>\<open>list_keys()\<close> still contains the key, provided the client has no \<^verbatim>\<open>list_keys\<close> of
  its own (so that \<^verbatim>\<open>list_keys()\<close> reads the registry). \<^verbatim>\<open>set\<close> never removes a key
  from the registry either, so only \<^verbatim>\<open>invalidate_by_tag\<close> and \<^verbatim>\<open>clear_all\<close> remove
  keys from it.
\<close>

theorem delete_keeps_key_registered:
  "(\<exists>cm2. delete env cm key = Inr cm2 \<and> key_registry cm2 = key_registry cm)
   \<and> (\<not> iron_available cm \<longrightarrow>
        (\<exists>cm2. delete env cm key = Inr cm2 \<and> get env cm2 t key = Inr None
           \<and> list_keys env cm2 = Inr (key_registry cm)))
   \<and> (\<not> iron_available cm \<and> - 999999999 \<le> ttl div 86400 \<and> ttl div 86400 \<le> 999999999
        \<and> 0 \<le> now + ttl * 1000000 \<and> now + ttl * 1000000 \<le> DATETIME_MAX \<longrightarrow>
        (\<exists>cm1 cm2 ks. set_cache env cm now key v ttl = Inr cm1 \<and> delete env cm1 key = Inr cm2
           \<and> get env cm2 t key = Inr None \<and> list_keys env cm2 = Inr ks \<and> key \<in> set ks))
   \<and> (iron_available cm \<and> client_present cm \<and> json_dumps env v = Inr js
        \<and> ic_put env key js ttl = Returns () \<and> ic_list_keys env = None \<longrightarrow>
        (\<exists>cm1 cm2 ks. set_cache env cm now key v ttl = Inr cm1 \<and> delete env cm1 key = Inr cm2
           \<and> list_keys env cm2 = Inr ks \<and> key \<in> set ks))
   \<and> (\<exists>cm1. set_cache env cm now key v ttl = Inr cm1
          \<and> set (key_registry cm) \<subseteq> set (key_registry cm1))"
proof (intro conjI impI)
  show "\<exists>cm2. delete env cm key = Inr cm2 \<and> key_registry cm2 = key_registry cm"
    by (simp add: delete_def split: reply.splits)
next
  assume m: "\<not> iron_available cm"
  then show "\<exists>cm2. delete env cm key = Inr cm2 \<and> get env cm2 t key = Inr None
           \<and> list_keys env cm2 = Inr (key_registry cm)"
    by (simp add: delete_def get_def get_try_def list_keys_def)
next
  assume a: "\<not> iron_available cm \<and> - 999999999 \<le> ttl div 86400 \<and> ttl div 86400 \<le> 999999999
        \<and> 0 \<le> now + ttl * 1000000 \<and> now + ttl * 1000000 \<le> DATETIME_MAX"
  let ?cm1 = "cm\<lparr>memory_cache := (memory_cache cm)(key \<mapsto>
                \<lparr>entry_value = v, expires_at = now + ttl * 1000000\<rparr>),
             key_registry := set_add key (key_registry cm)\<rparr>"
  let ?cm2 = "?cm1\<lparr>memory_cache := (memory_cache ?cm1)(key := None)\<rparr>"
  have s: "set_cache env cm now key v ttl = Inr ?cm1"
    using a by (intro set_cache_memory_general) simp_all
  have d: "delete env ?cm1 key = Inr ?cm2" using a by (simp add: delete_def)
  have g: "get env ?cm2 t key = Inr None" using a by (simp add: get_def get_try_def)
  have l: "list_keys env ?cm2 = Inr (set_add key (key_registry cm))"
    using a by (simp add: list_keys_def)
  have k: "key \<in> set (set_add key (key_registry cm))" by (simp add: set_add_def)
  from s d g l k
  have "set_cache env cm now key v ttl = Inr ?cm1 \<and> delete env ?cm1 key = Inr ?cm2
           \<and> get env ?cm2 t key = Inr None
           \<and> list_keys env ?cm2 = Inr (set_add key (key_registry cm))
           \<and> key \<in> set (set_add key (key_registry cm))"
    by (intro conjI)
  then show "\<exists>cm1 cm2 ks. set_cache env cm now key v ttl = Inr cm1 \<and> delete env cm1 key = Inr cm2
           \<and> get env cm2 t key = Inr None \<and> list_keys env cm2 = Inr ks \<and> key \<in> set ks"
    by (intro exI)
next
  assume a: "iron_available cm \<and> client_present cm \<and> json_dumps env v = Inr js
        \<and> ic_put env key js ttl = Returns () \<and> ic_list_keys env = None"
  let ?cm1 = "cm\<lparr>key_registry := set_add key (key_registry cm)\<rparr>"
  have s: "set_cache env cm now key v ttl = Inr ?cm1"
    using a by (simp add: set_cache_def set_try_def)
  have d: "delete env ?cm1 key = Inr ?cm1"
    using a by (simp add: delete_def split: reply.splits)
  have l: "list_keys env ?cm1 = Inr (set_add key (key_registry cm))"
    using a by (simp add: list_keys_def)
  have k: "key \<in> set (set_add key (key_registry cm))" by (simp add: set_add_def)
  from s d l k
  have "set_cache env cm now key v ttl = Inr ?cm1 \<and> delete env ?cm1 key = Inr ?cm1
           \<and> list_keys env ?cm1 = Inr (set_add key (key_registry cm))
           \<and> key \<in> set (set_add key (key_registry cm))"
    by (intro conjI)
  then show "\<exists>cm1 cm2 ks. set_cache env cm now key v ttl = Inr cm1 \<and> delete env cm1 key = Inr cm2
           \<and> list_keys env cm2 = Inr ks \<and> key \<in> set ks"
    by (intro exI)
next
  show "\<exists>cm1. set_cache env cm now key v ttl = Inr cm1
          \<and> set (key_registry cm) \<subseteq> set (key_registry cm1)"
    by (rule set_cache_registry_grows)
qed

theorem delete_keeps_key_registered_witness:
  "set_cache (iron_down :: nat iron_env) cache_init 63902822400000000 ''k'' 7 3600
     = Inr \<lparr>iron_available = False, client_present = False,
            memory_cache = [''k'' \<mapsto> \<lparr>entry_value = 7, expires_at = 63902826000000000\<rparr>],
            key_registry = [''k'']\<rparr>
   \<and> delete (iron_down :: nat iron_env)
        \<lparr>iron_available = False, client_present = False,
            memory_cache = [''k'' \<mapsto> \<lparr>entry_value = 7, expires_at = 63902826000000000\<rparr>],
            key_registry = [''k'']\<rparr> ''k''
     = Inr \<lparr>iron_available = False, client_present = False,
            memory_cache = Map.empty, key_registry = [''k'']\<rparr>
   \<and> get (iron_down :: nat iron_env)
        \<lparr>iron_available = False, client_present = False,
            memory_cache = Map.empty, key_registry = [''k'']\<rparr> 63902822400000000 ''k'' = Inr None
   \<and> list_keys (iron_down :: nat iron_env)
        \<lparr>iron_available = False, client_present = False,
            memory_cache = Map.empty, key_registry = [''k'']\<rparr> = Inr [''k'']
   \<and> set_cache (iron_up :: nat iron_env)
        \<lparr>iron_available = True, client_present = True,
            memory_cache = Map.empty, key_registry = []\<rparr> 63902822400000000 ''k'' 7 3600
     = Inr \<lparr>iron_available = True, client_present = True,
            memory_cache = Map.empty, key_registry = [''k'']\<rparr>
   \<and> delete (iron_up :: nat iron_env)
        \<lparr>iron_available = True, client_present = True,
            memory_cache = Map.empty, key_registry = [''k'']\<rparr> ''k''
     = Inr \<lparr>iron_available = True, client_present = True,
            memory_cache = Map.empty, key_registry = [''k'']\<rparr>
   \<and> list_keys (iron_up :: nat iron_env)
        \<lparr>iron_available = True, client_present = True,
            memory_cache = Map.empty, key_registry = [''k'']\<rparr> = Inr [''k'']"
proof -
  let ?ci = "\<lparr>iron_available = True, client_present = True,
            memory_cache = (Map.empty :: string \<rightharpoonup> nat cache_entry), key_registry = []\<rparr>"
  let ?ci1 = "\<lparr>iron_available = True, client_present = True,
            memory_cache = (Map.empty :: string \<rightharpoonup> nat cache_entry), key_registry = [''k'']\<rparr>"
  have hyp_iron: "iron_available ?ci \<and> client_present ?ci
        \<and> json_dumps (iron_up :: nat iron_env) 7 = Inr ''null''
        \<and> ic_put (iron_up :: nat iron_env) ''k'' ''null'' 3600 = Returns ()
        \<and> ic_list_keys (iron_up :: nat iron_env) = None"
    by (simp add: iron_up_def)
  have si: "set_cache (iron_up :: nat iron_env) ?ci 63902822400000000 ''k'' 7 3600 = Inr ?ci1"
    by (simp add: set_cache_def set_try_def iron_up_def set_add_def)
  have di: "delete (iron_up :: nat iron_env) ?ci1 ''k'' = Inr ?ci1"
    by (simp add: delete_def iron_up_def)
  from delete_keeps_key_registered[of "iron_up :: nat iron_env" ?ci
      "''k''" 63902822400000000 3600 63902822400000000 7 "''null''",
      THEN conjunct2, THEN conjunct2, THEN conjunct2, THEN conjunct1, THEN mp, OF hyp_iron]
  obtain ci1 ci2 ksi where
    alli: "set_cache (iron_up :: nat iron_env) ?ci 63902822400000000 ''k'' 7 3600 = Inr ci1
       \<and> delete iron_up ci1 ''k'' = Inr ci2
       \<and> list_keys iron_up ci2 = Inr ksi \<and> ''k'' \<in> set ksi"
    by (elim exE)
  have ei1: "ci1 = ?ci1" using alli[THEN conjunct1] si by simp
  have ei2: "ci2 = ?ci1" using alli[THEN conjunct2, THEN conjunct1] di unfolding ei1 by simp
  have "list_keys (iron_up :: nat iron_env) ?ci1 = Inr ksi"
    using alli[THEN conjunct2, THEN conjunct2, THEN conjunct1] unfolding ei2 .
  then have li: "list_keys (iron_up :: nat iron_env) ?ci1 = Inr [''k'']"
    by (simp add: list_keys_def iron_up_def)
  let ?cm1 = "\<lparr>iron_available = False, client_present = False,
            memory_cache = [''k'' \<mapsto> \<lparr>entry_value = 7::nat, expires_at = 63902826000000000\<rparr>],
            key_registry = [''k'']\<rparr>"
  let ?cm2 = "\<lparr>iron_available = False, client_present = False,
            memory_cache = (Map.empty :: string \<rightharpoonup> nat cache_entry), key_registry = [''k'']\<rparr>"
  have hyp: "\<not> iron_available (cache_init :: nat cache_manager) \<and> - 999999999 \<le> (3600::int) div 86400
        \<and> (3600::int) div 86400 \<le> 999999999
        \<and> (0::int) \<le> 63902822400000000 + 3600 * 1000000
        \<and> (63902822400000000::int) + 3600 * 1000000 \<le> DATETIME_MAX"
    by (simp add: cache_init_def DATETIME_MAX_def)
  have s: "set_cache (iron_down :: nat iron_env) cache_init 63902822400000000 ''k'' 7 3600 = Inr ?cm1"
    by (simp add: set_cache_def set_try_def cache_init_def timedelta_seconds_def datetime_add_def
      DATETIME_MAX_def set_add_def)
  have d: "delete (iron_down :: nat iron_env) ?cm1 ''k'' = Inr ?cm2"
    by (simp add: delete_def)
  from delete_keeps_key_registered[of "iron_down :: nat iron_env" "cache_init :: nat cache_manager"
      "''k''" 63902822400000000 3600 63902822400000000 7,
      THEN conjunct2, THEN conjunct2, THEN conjunct1, THEN mp, OF hyp]
  obtain cm1 cm2 ks where
    all: "set_cache (iron_down :: nat iron_env) cache_init 63902822400000000 ''k'' 7 3600 = Inr cm1
       \<and> delete iron_down cm1 ''k'' = Inr cm2
       \<and> get iron_down cm2 63902822400000000 ''k'' = Inr None
       \<and> list_keys iron_down cm2 = Inr ks \<and> ''k'' \<in> set ks"
    by (elim exE)
  have e1: "cm1 = ?cm1" using all[THEN conjunct1] s by simp
  have e2: "cm2 = ?cm2" using all[THEN conjunct2, THEN conjunct1] d unfolding e1 by simp
  have g: "get (iron_down :: nat iron_env) ?cm2 63902822400000000 ''k'' = Inr None"
    using all[THEN conjunct2, THEN conjunct2, THEN conjunct1] unfolding e2 .
  have l: "list_keys (iron_down :: nat iron_env) ?cm2 = Inr [''k'']"
    by (simp add: list_keys_def)
  from s d g l si di li show ?thesis by (intro conjI)
qed

section \<open>Rate limiter: the claim\<close>

text \<open>
  Claim C1 says that a call made after the 60-second window has elapsed is allowed
  again. The sixth call does not only reject: it calls \<^verbatim>\<open>block_ip\<close>, which blocks the
  address for \<^verbatim>\<open>ip_block_duration\<close> = 86400 seconds. Below, with policy 5 requests per
  60 seconds, an empty block list and a server clock in UTC, six calls are made one
  second apart from 2026-01-01T00:00:00 and a seventh 61 seconds after the sixth: the
  seventh is rejected with "IP address blocked".
\<close>

theorem rate_limit_window_counterexample:
  "fst (check_calls [(''/limited'', 5, 60), (''default'', 100, 3600)] 0
          \<lparr>available = True, ip_blocklist = [], rate_limits = []\<rparr> ''10.0.0.1'' ''/limited''
          [63902822400000000, 63902822401000000, 63902822402000000, 63902822403000000,
           63902822404000000, 63902822405000000, 63902822466000000])
   = [Returned True, Returned True, Returned True, Returned True, Returned True,
      HTTPRaised 429 ''Rate limit exceeded'', HTTPRaised 429 ''IP address blocked'']"
  by (simp add: check_rate_limit_def check_rate_limit_try_def is_ip_blocked_def
      rate_limit_for_def timedelta_seconds_def datetime_add_def DATETIME_MAX_def
      get_rate_limit_count_def increment_rate_limit_def block_ip_def ip_block_duration_def)

text \<open>
  Claim C1 as amended: on a server whose local clock is UTC and with the store
  available, for an address and endpoint with policy 5 requests per 60 seconds, no
  block row for the address and no counted row for the pair inside the window, the
  first five \<^verbatim>\<open>check_rate_limit\<close> calls in the window are allowed and the sixth is
  rejected with 429 "Rate limit exceeded" and blocks the address for 86400 seconds.
  Every later call while the block lasts, also one made after the 60-second window has
  elapsed, is rejected with 429 "IP address blocked"; a call made once the block has
  expired is allowed again. Times \<open>t1 \<dots> t8\<close> are the clock readings of the eight
  calls, in microseconds.
\<close>

theorem rate_limit_boundary_then_block:
  assumes cfg: "rate_limit_for cfg ep = Inr (5, 60)"
    and up: "available db"
    and nb: "\<forall>r\<in>set (ip_blocklist db). bl_ip_address r \<noteq> ip"
    and old: "\<forall>r\<in>set (rate_limits db). rl_ip_address r = ip \<and> rl_endpoint r = ep \<longrightarrow>
                rl_created_at r < t1 - 60000000"
    and times: "60000000 \<le> t1" "t1 \<le> t2" "t2 \<le> t3" "t3 \<le> t4" "t4 \<le> t5" "t5 \<le> t6"
      "t6 \<le> t1 + 60000000"
    and t7: "t6 \<le> t7" "t7 < t6 + 86400000000"
    and t8: "t6 + 86400000000 \<le> t8" "t8 \<le> DATETIME_MAX"
  shows "fst (check_calls cfg 0 db ip ep [t1, t2, t3, t4, t5, t6, t7, t8]) =
     [Returned True, Returned True, Returned True, Returned True, Returned True,
      HTTPRaised 429 ''Rate limit exceeded'', HTTPRaised 429 ''IP address blocked'',
      Returned True]"
proof -
  define row where "row t = \<lparr>rl_ip_address = ip, rl_endpoint = ep, rl_count = 1, rl_created_at = t\<rparr>" for t
  define blk where "blk = \<lparr>bl_ip_address = ip, bl_reason = ''rate_limit_exceeded'',
            bl_blocked_until = t6 + 86400000000, bl_created_at = t6\<rparr>"
  define db1 where "db1 = db\<lparr>rate_limits := rate_limits db @ [row t1]\<rparr>"
  define db2 where "db2 = db\<lparr>rate_limits := rate_limits db @ [row t1, row t2]\<rparr>"
  define db3 where "db3 = db\<lparr>rate_limits := rate_limits db @ [row t1, row t2, row t3]\<rparr>"
  define db4 where "db4 = db\<lparr>rate_limits := rate_limits db @ [row t1, row t2, row t3, row t4]\<rparr>"
  define db5 where "db5 = db\<lparr>rate_limits := rate_limits db @ [row t1, row t2, row t3, row t4, row t5]\<rparr>"
  define db6 where "db6 = db5\<lparr>ip_blocklist := ip_blocklist db @ [blk]\<rparr>"
  define db8 where "db8 = db6\<lparr>ip_blocklist := ip_blocklist db,
                               rate_limits := rate_limits db6 @ [row t8]\<rparr>"
  have le: "t1 \<le> DATETIME_MAX" "t2 \<le> DATETIME_MAX" "t3 \<le> DATETIME_MAX" "t4 \<le> DATETIME_MAX"
    "t5 \<le> DATETIME_MAX" "t6 + 86400000000 \<le> DATETIME_MAX"
    using times t7 t8 by simp_all
  have old0: "count_rows (rate_limits db) ip ep ws = 0" if "t1 - 60000000 \<le> ws" for ws
  proof (rule count_rows_old, intro ballI impI)
    fix r assume "r \<in> set (rate_limits db)" "rl_ip_address r = ip \<and> rl_endpoint r = ep"
    then have "rl_created_at r < t1 - 60000000" using old by blast
    then show "rl_created_at r < ws" using that by simp
  qed
  have cons: "count_rows (row t # rows) ip ep ws = (if ws \<le> t then 1 else 0) + count_rows rows ip ep ws"
    for t rows ws
    unfolding row_def by (rule count_rows_Cons)
  note cnt = count_rows_append cons count_rows_Nil
  have s1: "check_rate_limit cfg 0 db t1 ip ep = (Returned True, db1)"
    unfolding db1_def row_def
    by (rule allowed_step[OF up nb cfg times(1) le(1)]) (simp add: old0)
  have s2: "check_rate_limit cfg 0 db1 t2 ip ep = (Returned True, db2)"
  proof -
    have "count_rows (rate_limits db1) ip ep (t2 - 60000000) < 5"
      using times by (simp add: db1_def cnt old0)
    from allowed_step[of db1 ip cfg ep t2, OF _ _ cfg _ le(2) this]
    show ?thesis using up nb times by (simp add: db1_def db2_def row_def)
  qed
  have s3: "check_rate_limit cfg 0 db2 t3 ip ep = (Returned True, db3)"
  proof -
    have "count_rows (rate_limits db2) ip ep (t3 - 60000000) < 5"
      using times by (simp add: db2_def cnt old0)
    from allowed_step[of db2 ip cfg ep t3, OF _ _ cfg _ le(3) this]
    show ?thesis using up nb times by (simp add: db2_def db3_def row_def)
  qed
  have s4: "check_rate_limit cfg 0 db3 t4 ip ep = (Returned True, db4)"
  proof -
    have "count_rows (rate_limits db3) ip ep (t4 - 60000000) < 5"
      using times by (simp add: db3_def cnt old0)
    from allowed_step[of db3 ip cfg ep t4, OF _ _ cfg _ le(4) this]
    show ?thesis using up nb times by (simp add: db3_def db4_def row_def)
  qed
  have s5: "check_rate_limit cfg 0 db4 t5 ip ep = (Returned True, db5)"
  proof -
    have "count_rows (rate_limits db4) ip ep (t5 - 60000000) < 5"
      using times by (simp add: db4_def cnt old0)
    from allowed_step[of db4 ip cfg ep t5, OF _ _ cfg _ le(5) this]
    show ?thesis using up nb times by (simp add: db4_def db5_def row_def)
  qed
  have s6: "check_rate_limit cfg 0 db5 t6 ip ep = (HTTPRaised 429 ''Rate limit exceeded'', db6)"
  proof -
    have "5 \<le> count_rows (rate_limits db5) ip ep (t6 - 60000000)"
      using times by (simp add: db5_def cnt old0)
    from exceeded_step[of db5 ip cfg ep t6, OF _ _ cfg _ le(6) this]
    show ?thesis using up nb times by (simp add: db5_def db6_def blk_def)
  qed
  have up6: "available db6" using up by (simp add: db6_def db5_def)
  have bl6: "ip_blocklist db6 = ip_blocklist db @ [blk]" by (simp add: db6_def)
  have bip: "bl_ip_address blk = ip" by (simp add: blk_def)
  have s7: "check_rate_limit cfg 0 db6 t7 ip ep = (HTTPRaised 429 ''IP address blocked'', db6)"
    by (rule blocked_step[OF up6 bl6 nb bip]) (simp add: blk_def t7)
  have s8: "check_rate_limit cfg 0 db6 t8 ip ep = (Returned True, db8)"
  proof -
    have "count_rows (rate_limits db6) ip ep (t8 - 60000000) < 5"
      using times t8 by (simp add: db6_def db5_def cnt old0)
    moreover have "bl_blocked_until blk \<le> t8" using t8 by (simp add: blk_def)
    moreover have "60000000 \<le> t8" using times t8 by simp
    ultimately have "check_rate_limit cfg 0 db6 t8 ip ep =
      (Returned True, db6\<lparr>ip_blocklist := ip_blocklist db, rate_limits := rate_limits db6 @
          [\<lparr>rl_ip_address = ip, rl_endpoint = ep, rl_count = 1, rl_created_at = t8\<rparr>]\<rparr>)"
      using t8(2) by (intro expired_step[OF up6 bl6 nb bip _ cfg])
    then show ?thesis by (simp add: db8_def row_def)
  qed
  show ?thesis by (simp add: s1 s2 s3 s4 s5 s6 s7 s8)
qed

theorem rate_limit_boundary_then_block_witness:
  "fst (check_calls [(''/limited'', 5, 60), (''default'', 100, 3600)] 0
          \<lparr>available = True, ip_blocklist = [], rate_limits = []\<rparr> ''10.0.0.1'' ''/limited''
          [63902822400000000, 63902822401000000, 63902822402000000, 63902822403000000,
           63902822404000000, 63902822405000000, 63902822466000000, 63902908805000000])
   = [Returned True, Returned True, Returned True, Returned True, Returned True,
      HTTPRaised 429 ''Rate limit exceeded'', HTTPRaised 429 ''IP address blocked'',
      Returned True]"
  by (rule rate_limit_boundary_then_block) (simp_all add: rate_limit_for_def DATETIME_MAX_def)

end
